theory Spec2Isabelle
  imports Main "HOL-Library.Word"
begin

unbundle bit_operations_syntax

section \<open>The file-based replay cache, version 2\<close>

text \<open>
  The development embeds \<^verbatim>\<open>lib/krb5/rcache/rc_file2.c\<close>: the table
  geometry (\<^verbatim>\<open>next_table\<close>), the record I/O (\<^verbatim>\<open>read_records\<close>,
  \<^verbatim>\<open>write_record\<close>), the insertion loop of \<^verbatim>\<open>store\<close> and the entry point
  \<^verbatim>\<open>k5_rcfile2_store\<close>.  Offsets (\<^verbatim>\<open>off_t\<close>) are integers without wrap-around:
  every table that \<^verbatim>\<open>next_table\<close> accepts ends at or below \<^verbatim>\<open>MAX_SIZE\<close>, so
  from the sentinel on the code forms no value beyond the range of \<^verbatim>\<open>off_t\<close>.
  Bytes, timestamps and hash values are machine words.
\<close>

type_synonym u8 = "8 word"
type_synonym u32 = "32 word"
type_synonym u64 = "64 word"

subsection \<open>Constants and error codes\<close>

datatype error = EINVAL | EIO | EOVERFLOW | KRB5KRB_AP_ERR_REPEAT | Errno nat

definition MAX_SIZE :: int where
  "MAX_SIZE = 2147483647"

definition TAG_LEN :: nat where
  "TAG_LEN = 12"

definition RECORD_LEN :: nat where
  "RECORD_LEN = TAG_LEN + 4"

definition FIRST_TABLE_RECORDS :: int where
  "FIRST_TABLE_RECORDS = 1023"

subsection \<open>What the file uses and does not define\<close>

text \<open>
  The seed length \<^verbatim>\<open>K5_HASH_SEED_LEN\<close> and the hash \<^verbatim>\<open>k5_siphash24\<close> come from
  \<^verbatim>\<open>k5-hashtab.h\<close>, the timestamp helpers \<^verbatim>\<open>ts_incr\<close> and \<^verbatim>\<open>ts_after\<close> from
  \<^verbatim>\<open>k5-int.h\<close>.  Neither header is part of the sources at hand, so the four are
  parameters of the embedding, collected in one record.  The hash takes the tag
  bytes and the seed.
\<close>

record env =
  K5_HASH_SEED_LEN :: nat
  k5_siphash24 :: "u8 list \<Rightarrow> u8 list \<Rightarrow> u64"
  ts_incr :: "u32 \<Rightarrow> u32 \<Rightarrow> u32"
  ts_after :: "u32 \<Rightarrow> u32 \<Rightarrow> bool"

text \<open>
  What the calls made on a \<^verbatim>\<open>krb5_context\<close> return during one call of the entry
  point: the clock skew (the bits of \<^verbatim>\<open>context->clockskew\<close>, as \<^verbatim>\<open>store\<close>
  receives them in its \<^verbatim>\<open>uint32_t\<close> parameter), the result of
  \<^verbatim>\<open>krb5_timeofday\<close> and the result of \<^verbatim>\<open>krb5_c_random_make_octets\<close>.
\<close>

record krb5_context =
  clockskew :: u32
  krb5_timeofday :: "error + u32"
  krb5_c_random_make_octets :: "error + u8 list"

subsection \<open>The open file\<close>

text \<open>
  The descriptor is modelled by the bytes of the regular file behind it, the file
  offset of the descriptor, and whether the lock is held.  Every operation on the
  descriptor (seek, read, write, lock, unlock) advances \<open>ticks\<close> by one;
  \<open>fate w n\<close> says how the operation number \<open>n\<close> fares: it completes, it fails
  with an errno, or (for a write only) it is cut short after some bytes.
\<close>

datatype outcome = Completes | Fails nat | Short nat

record world =
  bytes :: "u8 list"
  pos :: nat
  held :: bool
  ticks :: nat
  fate :: "nat \<Rightarrow> outcome"

definition tick :: "world \<Rightarrow> world" where
  "tick w = w\<lparr>ticks := Suc (ticks w)\<rparr>"

text \<open>Writing \<open>buf\<close> at position \<open>p\<close>: a gap between the end of the file and \<open>p\<close>
  reads as zero bytes afterwards.\<close>

definition overwrite :: "u8 list \<Rightarrow> nat \<Rightarrow> u8 list \<Rightarrow> u8 list" where
  "overwrite xs p buf =
     take p xs @ replicate (p - length xs) 0 @ buf @ drop (p + length buf) xs"

text \<open>\<^verbatim>\<open>lseek(fd, offset, SEEK_SET)\<close>: a negative offset is \<^verbatim>\<open>EINVAL\<close>.\<close>

definition lseek_set :: "world \<Rightarrow> int \<Rightarrow> (error + unit) \<times> world" where
  "lseek_set w offset =
     (case fate w (ticks w) of
        Fails e \<Rightarrow> (Inl (Errno e), tick w)
      | _ \<Rightarrow> if offset < 0 then (Inl EINVAL, tick w)
             else (Inr (), tick (w\<lparr>pos := nat offset\<rparr>)))"

text \<open>\<^verbatim>\<open>read(fd, buf, n)\<close>: the bytes from the file offset on, at most \<open>n\<close>, fewer
  only at the end of the file.\<close>

definition sys_read :: "world \<Rightarrow> nat \<Rightarrow> (error + u8 list) \<times> world" where
  "sys_read w n =
     (case fate w (ticks w) of
        Fails e \<Rightarrow> (Inl (Errno e), tick w)
      | _ \<Rightarrow> (let got = take n (drop (pos w) (bytes w))
             in (Inr got, tick (w\<lparr>pos := pos w + length got\<rparr>))))"

text \<open>\<^verbatim>\<open>write(fd, buf, n)\<close>: returns the number of bytes transferred.\<close>

definition sys_write :: "world \<Rightarrow> u8 list \<Rightarrow> (error + nat) \<times> world" where
  "sys_write w buf =
     (case fate w (ticks w) of
        Fails e \<Rightarrow> (Inl (Errno e), tick w)
      | Short k \<Rightarrow>
          (let part = take k buf
           in (Inr (length part),
               tick (w\<lparr>bytes := overwrite (bytes w) (pos w) part,
                       pos := pos w + length part\<rparr>)))
      | Completes \<Rightarrow>
          (Inr (length buf),
           tick (w\<lparr>bytes := overwrite (bytes w) (pos w) buf,
                   pos := pos w + length buf\<rparr>)))"

text \<open>\<^verbatim>\<open>krb5_lock_file\<close> with \<^verbatim>\<open>KRB5_LOCKMODE_EXCLUSIVE\<close>, and
  \<^verbatim>\<open>krb5_unlock_file\<close>, whose result the caller ignores.\<close>

definition krb5_lock_file :: "world \<Rightarrow> (error + unit) \<times> world" where
  "krb5_lock_file w =
     (case fate w (ticks w) of
        Fails e \<Rightarrow> (Inl (Errno e), tick w)
      | _ \<Rightarrow> (Inr (), tick (w\<lparr>held := True\<rparr>)))"

definition krb5_unlock_file :: "world \<Rightarrow> world" where
  "krb5_unlock_file w =
     (case fate w (ticks w) of
        Fails e \<Rightarrow> tick w
      | _ \<Rightarrow> tick (w\<lparr>held := False\<rparr>))"

subsection \<open>Table geometry\<close>

text \<open>\<^verbatim>\<open>next_table\<close>: the pair is \<open>(*offset, *nrecords)\<close>; the caller starts
  with offset \<open>-1\<close>.\<close>

definition next_table :: "env \<Rightarrow> int \<times> int \<Rightarrow> error + (int \<times> int)" where
  "next_table x tbl =
     (let (offset, nrecords) = tbl;
          (offset', nrecords') =
             (if offset = - 1 then (int (K5_HASH_SEED_LEN x), FIRST_TABLE_RECORDS)
              else if offset = int (K5_HASH_SEED_LEN x)
                then (offset + nrecords * int RECORD_LEN, (FIRST_TABLE_RECORDS + 1) * 2)
              else (offset + nrecords * int RECORD_LEN, nrecords * 2))
      in if nrecords' > MAX_SIZE div int RECORD_LEN then Inl EOVERFLOW
         else if offset' > MAX_SIZE - nrecords' * int RECORD_LEN then Inl EOVERFLOW
         else Inr (offset', nrecords'))"

text \<open>The tables produced by successive calls, starting from the sentinel as
  \<^verbatim>\<open>store\<close> does (\<open>table_offset = -1\<close>, \<open>nrecords = 0\<close>).\<close>

fun table_seq :: "env \<Rightarrow> nat \<Rightarrow> error + (int \<times> int)" where
  "table_seq x 0 = next_table x (- 1, 0)"
| "table_seq x (Suc n) =
     (case table_seq x n of Inl e \<Rightarrow> Inl e | Inr tbl \<Rightarrow> next_table x tbl)"

subsection \<open>Records\<close>

text \<open>
  Modelled from the spec: \<^verbatim>\<open>store_32_be\<close> and \<^verbatim>\<open>load_32_be\<close> (from
  \<^verbatim>\<open>k5-platform.h\<close>, which is not part of the sources at hand) write and read a
  32-bit unsigned value in big-endian byte order.
\<close>

definition store_32_be :: "u32 \<Rightarrow> u8 list" where
  "store_32_be v =
     [ucast (drop_bit 24 v), ucast (drop_bit 16 v), ucast (drop_bit 8 v), ucast v]"

definition load_32_be :: "u8 list \<Rightarrow> u32" where
  "load_32_be p =
     push_bit 24 (ucast (p ! 0)) OR push_bit 16 (ucast (p ! 1))
       OR push_bit 8 (ucast (p ! 2)) OR ucast (p ! 3)"

text \<open>The 16 bytes that \<^verbatim>\<open>write_record\<close> marshals, and the parsing that
  \<^verbatim>\<open>read_records\<close> applies to one record of its buffer.\<close>

definition marshal :: "u8 list \<Rightarrow> u32 \<Rightarrow> u8 list" where
  "marshal tag timestamp = take TAG_LEN tag @ store_32_be timestamp"

definition parse :: "u8 list \<Rightarrow> u8 list \<times> u32" where
  "parse buf = (take TAG_LEN buf, load_32_be (drop TAG_LEN buf))"

text \<open>\<^verbatim>\<open>read_records\<close> returns the records it parsed, in order: \<open>*nread\<close> is the
  length of the list.  The output parameters it leaves untouched are never read by
  \<^verbatim>\<open>store\<close>, which guards every use by \<open>nread\<close>.\<close>

definition read_records :: "world \<Rightarrow> int \<Rightarrow> (error + (u8 list \<times> u32) list) \<times> world" where
  "read_records w offset =
     (case lseek_set w offset of
        (Inl e, w1) \<Rightarrow> (Inl e, w1)
      | (Inr _, w1) \<Rightarrow>
          (case sys_read w1 (RECORD_LEN * 2) of
             (Inl e, w2) \<Rightarrow> (Inl e, w2)
           | (Inr buf, w2) \<Rightarrow>
               (Inr ((if length buf \<ge> RECORD_LEN then [parse buf] else [])
                     @ (if length buf = RECORD_LEN * 2
                        then [parse (drop RECORD_LEN buf)] else [])), w2)))"

definition write_record :: "world \<Rightarrow> int \<Rightarrow> u8 list \<Rightarrow> u32 \<Rightarrow> (error + unit) \<times> world" where
  "write_record w offset tag timestamp =
     (case lseek_set w offset of
        (Inl e, w1) \<Rightarrow> (Inl e, w1)
      | (Inr _, w1) \<Rightarrow>
          (case sys_write w1 (marshal tag timestamp) of
             (Inl e, w2) \<Rightarrow> (Inl e, w2)
           | (Inr st, w2) \<Rightarrow>
               if st \<noteq> RECORD_LEN then (Inl EIO, w2) else (Inr (), w2)))"

subsection \<open>The insertion\<close>

text \<open>The three tests of the loop body of \<^verbatim>\<open>store\<close>, on the records read at
  this level: the duplicate check, the choice of the slot to write, and the
  condition that ends the search.\<close>

definition is_repeat :: "u8 list \<Rightarrow> (u8 list \<times> u32) list \<Rightarrow> bool" where
  "is_repeat tag recs =
     ((length recs \<ge> 1 \<and> take TAG_LEN (fst (recs ! 0)) = take TAG_LEN tag) \<or>
      (length recs = 2 \<and> take TAG_LEN (fst (recs ! 1)) = take TAG_LEN tag))"

definition select_avail ::
  "env \<Rightarrow> u32 \<Rightarrow> u32 \<Rightarrow> int \<Rightarrow> int \<Rightarrow> (u8 list \<times> u32) list \<Rightarrow> int" where
  "select_avail x now skew avail_offset record_offset recs =
     (if avail_offset = - 1 then
        (if length recs = 0 \<or> ts_after x now (ts_incr x (snd (recs ! 0)) skew)
           then record_offset
         else if length recs = 1 \<or> ts_after x now (ts_incr x (snd (recs ! 1)) skew)
           then record_offset + int RECORD_LEN
         else avail_offset)
      else avail_offset)"

definition stop_here :: "(u8 list \<times> u32) list \<Rightarrow> bool" where
  "stop_here recs =
     (length recs < 2 \<or> snd (recs ! 0) = 0 \<or> snd (recs ! 1) = 0)"

text \<open>The offset of the bucket probed in a table: the hash is an unsigned 64-bit
  value, reduced modulo the number of records.\<close>

definition bucket_offset :: "env \<Rightarrow> u8 list \<Rightarrow> u8 list \<Rightarrow> int \<times> int \<Rightarrow> int" where
  "bucket_offset x tag seed tbl =
     (let (table_offset, nrecords) = tbl;
          ind = uint (k5_siphash24 x (take TAG_LEN tag) seed) mod nrecords
      in table_offset + ind * int RECORD_LEN)"

text \<open>The loop of \<^verbatim>\<open>store\<close>.  Nothing in the loop itself bounds the number of
  rounds, so the result is an option: \<open>None\<close> stands for a loop that never
  returns.\<close>

partial_function (option) store_loop ::
  "env \<Rightarrow> u8 list \<Rightarrow> u32 \<Rightarrow> u32 \<Rightarrow> int \<times> int \<Rightarrow> int \<Rightarrow> u8 list \<Rightarrow> world
     \<Rightarrow> ((error + unit) \<times> world) option" where
  "store_loop x tag now skew tbl avail_offset seed w =
     (case next_table x tbl of
        Inl e \<Rightarrow> Some (Inl e, w)
      | Inr tbl' \<Rightarrow>
          (let record_offset = bucket_offset x tag seed tbl' in
           case read_records w record_offset of
             (Inl e, w1) \<Rightarrow> Some (Inl e, w1)
           | (Inr recs, w1) \<Rightarrow>
               if is_repeat tag recs then Some (Inl KRB5KRB_AP_ERR_REPEAT, w1)
               else
                 (let avail_offset' = select_avail x now skew avail_offset record_offset recs in
                  if stop_here recs then Some (write_record w1 avail_offset' tag now)
                  else store_loop x tag now skew tbl' avail_offset'
                         (seed[0 := seed ! 0 + 1]) w1)))"

text \<open>Reading or generating the hash seed, the first step of \<^verbatim>\<open>store\<close>.\<close>

definition hash_seed :: "env \<Rightarrow> krb5_context \<Rightarrow> world \<Rightarrow> (error + u8 list) \<times> world" where
  "hash_seed x ctx w =
     (case sys_read w (K5_HASH_SEED_LEN x) of
        (Inl e, w1) \<Rightarrow> (Inl e, w1)
      | (Inr seed, w1) \<Rightarrow>
          if length seed < K5_HASH_SEED_LEN x then
            (case krb5_c_random_make_octets ctx of
               Inl e \<Rightarrow> (Inl e, w1)
             | Inr seed' \<Rightarrow>
                 (case sys_write w1 seed' of
                    (Inl e, w2) \<Rightarrow> (Inl e, w2)
                  | (Inr st, w2) \<Rightarrow>
                      if st \<noteq> K5_HASH_SEED_LEN x then (Inl EIO, w2)
                      else (Inr seed', w2)))
          else (Inr seed, w1))"

definition store ::
  "env \<Rightarrow> krb5_context \<Rightarrow> world \<Rightarrow> u8 list \<Rightarrow> u32 \<Rightarrow> u32
     \<Rightarrow> ((error + unit) \<times> world) option" where
  "store x ctx w tag now skew =
     (case hash_seed x ctx w of
        (Inl e, w1) \<Rightarrow> Some (Inl e, w1)
      | (Inr seed, w1) \<Rightarrow> store_loop x tag now skew (- 1, 0) (- 1) seed w1)"

definition k5_rcfile2_store ::
  "env \<Rightarrow> krb5_context \<Rightarrow> world \<Rightarrow> u8 list \<Rightarrow> ((error + unit) \<times> world) option" where
  "k5_rcfile2_store x ctx w data =
     (if length data = 0 then Some (Inl EINVAL, w)
      else
        (case krb5_timeofday ctx of
           Inl e \<Rightarrow> Some (Inl e, w)
         | Inr now \<Rightarrow>
             (let tag = (if length data \<ge> TAG_LEN then take TAG_LEN data
                         else data @ replicate (TAG_LEN - length data) 0)
              in case krb5_lock_file w of
                   (Inl e, w1) \<Rightarrow> Some (Inl e, w1)
                 | (Inr _, w1) \<Rightarrow>
                     (case store x ctx w1 tag now (clockskew ctx) of
                        None \<Rightarrow> None
                      | Some (ret, w2) \<Rightarrow> Some (ret, krb5_unlock_file w2)))))"

declare store_loop.simps [code]

subsection \<open>Reference instances of the parameters\<close>

text \<open>
  Modelled from the spec: \<^verbatim>\<open>ts_incr\<close> and \<^verbatim>\<open>ts_after\<close> (\<^verbatim>\<open>k5-int.h\<close>) are
  not part of the sources at hand.  The spec describes a comparator "timestamp plus
  skew is before now" whose addition is safe against overflow and does not wrap
  around near the maximum timestamp: the addition saturates, the comparison is
  unsigned.
\<close>

definition ts_incr_spec :: "u32 \<Rightarrow> u32 \<Rightarrow> u32" where
  "ts_incr_spec ts delta = (if unat ts + unat delta < 2 ^ 32 then ts + delta else - 1)"

definition ts_after_spec :: "u32 \<Rightarrow> u32 \<Rightarrow> bool" where
  "ts_after_spec a b = (b < a)"

text \<open>A stand-in for the keyed hash, used where a statement is evaluated on a
  concrete file: the sum of the tag and seed bytes.  The seed length of the
  reference instance is 16, the key length of SipHash-2-4.\<close>

definition sum_hash :: "u8 list \<Rightarrow> u8 list \<Rightarrow> u64" where
  "sum_hash tag seed = word_of_nat (sum_list (map unat (tag @ seed)))"

definition ref_env :: env where
  "ref_env = \<lparr>K5_HASH_SEED_LEN = 16, k5_siphash24 = sum_hash,
               ts_incr = ts_incr_spec, ts_after = ts_after_spec\<rparr>"

subsection \<open>The closed form of the table sequence\<close>

text \<open>The spec's description of the levels: 1023 records, then 2048, then twice
  the previous level; each level starts where the previous one ends, the first one
  right after the seed.  A level fits when neither its byte length nor its end
  offset exceeds the maximum file size.\<close>

fun level_capacity :: "nat \<Rightarrow> int" where
  "level_capacity 0 = 1023"
| "level_capacity (Suc 0) = 2048"
| "level_capacity (Suc (Suc n)) = 2 * level_capacity (Suc n)"

fun level_offset :: "env \<Rightarrow> nat \<Rightarrow> int" where
  "level_offset x 0 = int (K5_HASH_SEED_LEN x)"
| "level_offset x (Suc n) = level_offset x n + level_capacity n * int RECORD_LEN"

definition fits :: "int \<times> int \<Rightarrow> bool" where
  "fits tbl =
     (snd tbl * int RECORD_LEN \<le> MAX_SIZE \<and> fst tbl + snd tbl * int RECORD_LEN \<le> MAX_SIZE)"

subsection \<open>Notions used in the statements\<close>

text \<open>A slot offset is the seed length plus a multiple of the record length; the
  table state of the loop is well formed when its offset is the sentinel or a slot
  offset and its record count is not negative.\<close>

definition slot_offset :: "env \<Rightarrow> int \<Rightarrow> bool" where
  "slot_offset x off =
     (int (K5_HASH_SEED_LEN x) \<le> off \<and> (off - int (K5_HASH_SEED_LEN x)) mod int RECORD_LEN = 0)"

definition table_ok :: "env \<Rightarrow> int \<times> int \<Rightarrow> bool" where
  "table_ok x tbl = (0 \<le> snd tbl \<and> (fst tbl = - 1 \<or> slot_offset x (fst tbl)))"

text \<open>What a run of the insertion may have done to the bytes \<open>before\<close>: on
  success one whole record was written at a slot offset; on failure nothing was
  written, unless the failure is \<^verbatim>\<open>EIO\<close> after a write that transferred only the
  first \<open>k\<close> bytes of the record (cut short by the system, or a tag shorter than
  \<^verbatim>\<open>TAG_LEN\<close>).\<close>

definition store_effect ::
  "env \<Rightarrow> u8 list \<Rightarrow> u32 \<Rightarrow> u8 list \<Rightarrow> (error + unit) \<times> world \<Rightarrow> bool" where
  "store_effect x tag now before y =
     (case fst y of
        Inr _ \<Rightarrow>
          (\<exists>off. slot_offset x off \<and>
                 bytes (snd y) = overwrite before (nat off) (marshal tag now))
      | Inl e \<Rightarrow>
          bytes (snd y) = before \<or>
          (e = EIO \<and>
           (\<exists>off k. slot_offset x off \<and> k < RECORD_LEN \<and>
                    (length tag < TAG_LEN \<or> (\<exists>n. fate (snd y) n = Short k)) \<and>
                    bytes (snd y) = overwrite before (nat off) (take k (marshal tag now)))))"

text \<open>The records that \<^verbatim>\<open>read_records\<close> finds at position \<open>p\<close> of a file with
  bytes \<open>bs\<close>, and the index of a tag's bucket in the first table.\<close>

definition bucket_at :: "u8 list \<Rightarrow> nat \<Rightarrow> (u8 list \<times> u32) list" where
  "bucket_at bs p =
     (let buf = take (RECORD_LEN * 2) (drop p bs)
      in (if length buf \<ge> RECORD_LEN then [parse buf] else [])
         @ (if length buf = RECORD_LEN * 2 then [parse (drop RECORD_LEN buf)] else []))"

definition first_index :: "env \<Rightarrow> u8 list \<Rightarrow> u8 list \<Rightarrow> nat" where
  "first_index x tag seed = nat (uint (k5_siphash24 x (take TAG_LEN tag) seed) mod 1023)"

text \<open>\<^verbatim>\<open>file2_store\<close> opens the file anew for every call: the next call works
  on the same bytes with the file offset at 0.\<close>

definition reopen :: "world \<Rightarrow> world" where
  "reopen w = w\<lparr>pos := 0\<rparr>"

text \<open>The situation of a call whose seed read is short: the descriptor is at
  offset 0 of a file of \<open>st\<close> bytes, every operation completes, and the generator
  yields the seed \<open>s\<close>, which fills the seed buffer.\<close>

definition short_seed_read ::
  "env \<Rightarrow> krb5_context \<Rightarrow> world \<Rightarrow> nat \<Rightarrow> u8 list \<Rightarrow> bool" where
  "short_seed_read x ctx w st s =
     (pos w = 0 \<and> fate w = (\<lambda>_. Completes) \<and> length (bytes w) = st \<and>
      krb5_c_random_make_octets ctx = Inr s \<and> length s = K5_HASH_SEED_LEN x)"

subsection \<open>Concrete files and tags\<close>

text \<open>An empty file on which every operation completes, a context whose generator
  yields sixteen bytes \<open>0x01\<close>, and three tags.\<close>

definition empty_file :: world where
  "empty_file = \<lparr>bytes = [], pos = 0, held = True, ticks = 0, fate = (\<lambda>_. Completes)\<rparr>"

definition ref_context :: krb5_context where
  "ref_context = \<lparr>clockskew = 300, krb5_timeofday = Inr 1000,
                   krb5_c_random_make_octets = Inr (replicate 16 1)\<rparr>"

definition tag_a :: "u8 list" where
  "tag_a = [1, 0, 0, 0, 0, 0, 0, 0, 0, 0, 0, 0]"

definition tag_b :: "u8 list" where
  "tag_b = [0, 1, 0, 0, 0, 0, 0, 0, 0, 0, 0, 0]"

definition tag_c :: "u8 list" where
  "tag_c = [0, 0, 2, 0, 0, 0, 0, 0, 0, 0, 0, 0]"

text \<open>With the seed of sixteen bytes \<open>0x01\<close> and the stand-in hash, \<open>tag_a\<close>
  and \<open>tag_b\<close> fall into bucket 17 of the first table (file offset 288) and
  \<open>tag_c\<close> into bucket 18.  The files below hold that seed and, at offset 288: the
  record of \<open>tag_a\<close> stored at time 1000; a full bucket with \<open>tag_b\<close> (time 500)
  and \<open>tag_c\<close> (time 1900); two slots that were never written.\<close>

definition stored_file :: world where
  "stored_file = \<lparr>bytes = replicate 16 1 @ replicate 272 0 @ marshal tag_a 1000,
                   pos = 0, held = True, ticks = 0, fate = (\<lambda>_. Completes)\<rparr>"

definition full_bucket_file :: world where
  "full_bucket_file =
     \<lparr>bytes = replicate 16 1 @ replicate 272 0 @ marshal tag_b 500 @ marshal tag_c 1900,
      pos = 0, held = True, ticks = 0, fate = (\<lambda>_. Completes)\<rparr>"

definition second_slot_file :: world where
  "second_slot_file =
     \<lparr>bytes = replicate 16 1 @ replicate 272 0 @ marshal tag_b 900 @ marshal tag_c 500,
      pos = 0, held = True, ticks = 0, fate = (\<lambda>_. Completes)\<rparr>"

definition live_bucket_file :: world where
  "live_bucket_file =
     \<lparr>bytes = replicate 16 1 @ replicate 272 0 @ marshal tag_b 900 @ marshal tag_c 1900,
      pos = 0, held = True, ticks = 0, fate = (\<lambda>_. Completes)\<rparr>"

definition hole_file :: world where
  "hole_file = \<lparr>bytes = replicate 16 1 @ replicate 320 0,
                 pos = 0, held = True, ticks = 0, fate = (\<lambda>_. Completes)\<rparr>"

text \<open>An empty file whose lock is not held; a file of a single byte; and a file
  whose bucket at offset 288 holds \<open>tag_b\<close> (time 500) and a slot never written,
  on which the fifth operation, the write of the record, is cut short after 12
  bytes.\<close>

definition unlocked_file :: world where
  "unlocked_file = \<lparr>bytes = [], pos = 0, held = False, ticks = 0, fate = (\<lambda>_. Completes)\<rparr>"

definition one_byte_file :: world where
  "one_byte_file = \<lparr>bytes = [7], pos = 0, held = True, ticks = 0, fate = (\<lambda>_. Completes)\<rparr>"

definition short_write_file :: world where
  "short_write_file =
     \<lparr>bytes = replicate 16 1 @ replicate 272 0 @ marshal tag_b 500 @ replicate 16 0,
      pos = 0, held = True, ticks = 0,
      fate = (\<lambda>n. if n = 4 then Short 12 else Completes)\<rparr>"

section \<open>Properties\<close>

subsection \<open>Record codec\<close>

lemma load_store_32_be: "load_32_be (store_32_be v) = v"
  unfolding load_32_be_def store_32_be_def
  apply simp
  apply (rule bit_word_eqI)
  subgoal for n
    apply (cases "n < 8"; cases "n < 16"; cases "n < 24")
           apply (auto simp: bit_simps)
    done
  done

lemma length_store_32_be: "length (store_32_be v) = 4"
  by (simp add: store_32_be_def)

lemma length_marshal: "length tag \<ge> TAG_LEN \<Longrightarrow> length (marshal tag ts) = RECORD_LEN"
  by (simp add: marshal_def RECORD_LEN_def length_store_32_be)

lemma parse_marshal: "length tag = TAG_LEN \<Longrightarrow> parse (marshal tag ts @ rest) = (tag, ts)"
proof -
  assume len: "length tag = TAG_LEN"
  have "load_32_be (store_32_be ts @ rest) = load_32_be (store_32_be ts)"
    by (simp add: load_32_be_def store_32_be_def)
  with len show ?thesis
    by (simp add: parse_def marshal_def load_store_32_be)
qed

text \<open>
  C5.  For every 12-byte tag and every 32-bit timestamp, the record that
  \<^verbatim>\<open>write_record\<close> marshals is 16 bytes long, consists of the tag followed by the
  big-endian timestamp, and the parsing of \<^verbatim>\<open>read_records\<close> gives back the tag
  and the timestamp.
\<close>

theorem record_round_trip:
  "length tag = TAG_LEN \<Longrightarrow>
     length (marshal tag timestamp) = 16 \<and>
     marshal tag timestamp = tag @ store_32_be timestamp \<and>
     parse (marshal tag timestamp) = (tag, timestamp)"
  using parse_marshal [of tag timestamp "[]"] length_marshal [of tag timestamp]
  by (simp add: marshal_def RECORD_LEN_def TAG_LEN_def)

theorem record_round_trip_witness:
  "length (map of_nat [1, 2, 3, 4, 5, 6, 7, 8, 9, 10, 11, 12] :: u8 list) = TAG_LEN \<and>
   parse (marshal (map of_nat [1, 2, 3, 4, 5, 6, 7, 8, 9, 10, 11, 12]) 1000)
     = (map of_nat [1, 2, 3, 4, 5, 6, 7, 8, 9, 10, 11, 12], 1000)"
  using record_round_trip [of "map of_nat [1, 2, 3, 4, 5, 6, 7, 8, 9, 10, 11, 12]" 1000]
  by (simp add: TAG_LEN_def marshal_def)

subsection \<open>Table geometry\<close>

lemma level_capacity_ge: "1023 \<le> level_capacity n"
  by (induction n rule: level_capacity.induct) simp_all

lemma level_capacity_Suc:
  "level_capacity (Suc n) = (if n = 0 then 2048 else 2 * level_capacity n)"
  by (cases n) simp_all

lemma level_capacity_less: "level_capacity n < level_capacity (Suc n)"
  using level_capacity_ge [of n] by (simp add: level_capacity_Suc)

lemma level_offset_less: "level_offset x n < level_offset x (Suc n)"
  using level_capacity_ge [of n] by (simp add: RECORD_LEN_def TAG_LEN_def)

lemma level_offset_ge: "int (K5_HASH_SEED_LEN x) \<le> level_offset x n"
proof (induction n)
  case 0
  show ?case by simp
next
  case (Suc n)
  with level_offset_less [of x n] show ?case by linarith
qed

lemma level_offset_seed: "level_offset x n = int (K5_HASH_SEED_LEN x) \<longleftrightarrow> n = 0"
proof (cases n)
  case 0
  then show ?thesis by simp
next
  case (Suc m)
  with level_offset_less [of x m] level_offset_ge [of x m] show ?thesis by simp
qed

lemma next_table_check:
  "next_table x tbl = Inl EOVERFLOW \<or> (\<exists>t. next_table x tbl = Inr t \<and> fits t)"
  by (auto simp: next_table_def fits_def MAX_SIZE_def RECORD_LEN_def TAG_LEN_def Let_def
      split: prod.splits)

lemma next_table_first:
  "next_table x (- 1, nr) =
     (if fits (level_offset x 0, level_capacity 0)
      then Inr (level_offset x 0, level_capacity 0) else Inl EOVERFLOW)"
  by (simp add: next_table_def fits_def MAX_SIZE_def RECORD_LEN_def TAG_LEN_def
      FIRST_TABLE_RECORDS_def)

lemma next_table_level:
  "next_table x (level_offset x n, level_capacity n) =
     (if fits (level_offset x (Suc n), level_capacity (Suc n))
      then Inr (level_offset x (Suc n), level_capacity (Suc n)) else Inl EOVERFLOW)"
proof -
  have "level_offset x n \<noteq> - 1"
    using level_offset_ge [of x n] by simp
  then show ?thesis
    by (simp add: next_table_def fits_def level_offset_seed level_capacity_Suc
        MAX_SIZE_def RECORD_LEN_def TAG_LEN_def FIRST_TABLE_RECORDS_def)
qed

lemma fits_level_Suc:
  "fits (level_offset x (Suc n), level_capacity (Suc n)) \<Longrightarrow>
     fits (level_offset x n, level_capacity n)"
  using level_capacity_less [of n] level_capacity_ge [of n]
  by (simp add: fits_def RECORD_LEN_def TAG_LEN_def MAX_SIZE_def)

lemma table_seq_closed:
  "table_seq x n =
     (if fits (level_offset x n, level_capacity n)
      then Inr (level_offset x n, level_capacity n) else Inl EOVERFLOW)"
proof (induction n)
  case 0
  show ?case by (simp add: next_table_first)
next
  case (Suc n)
  show ?case
  proof (cases "fits (level_offset x n, level_capacity n)")
    case True
    with Suc show ?thesis
      by (simp add: next_table_level del: level_offset.simps level_capacity.simps)
  next
    case False
    with fits_level_Suc [of x n]
    have "\<not> fits (level_offset x (Suc n), level_capacity (Suc n))"
      by blast
    with False Suc show ?thesis
      by (simp del: level_offset.simps level_capacity.simps)
  qed
qed

text \<open>
  C4.  The \<open>n\<close>-th call of the generator, counted from the sentinel, yields the
  closed form (1023 records, then 2048, then doubling; each offset the previous
  offset plus the previous level's byte length) as long as the level fits, and
  \<^verbatim>\<open>EOVERFLOW\<close> exactly when the level's byte length or its end offset exceeds
  the maximum file size; two successive tables increase strictly in offset and in
  capacity.
\<close>

theorem level_growth:
  "table_seq x n =
     (if level_capacity n * int RECORD_LEN > MAX_SIZE \<or>
         level_offset x n + level_capacity n * int RECORD_LEN > MAX_SIZE
      then Inl EOVERFLOW else Inr (level_offset x n, level_capacity n)) \<and>
   (\<forall>off cap off' cap'.
      table_seq x n = Inr (off, cap) \<longrightarrow> table_seq x (Suc n) = Inr (off', cap') \<longrightarrow>
      off < off' \<and> cap < cap')"
proof
  show "table_seq x n =
     (if level_capacity n * int RECORD_LEN > MAX_SIZE \<or>
         level_offset x n + level_capacity n * int RECORD_LEN > MAX_SIZE
      then Inl EOVERFLOW else Inr (level_offset x n, level_capacity n))"
    by (simp add: table_seq_closed [of x n] fits_def not_le)
next
  show "\<forall>off cap off' cap'.
      table_seq x n = Inr (off, cap) \<longrightarrow> table_seq x (Suc n) = Inr (off', cap') \<longrightarrow>
      off < off' \<and> cap < cap'"
  proof (intro allI impI)
    fix off cap off' cap'
    assume a: "table_seq x n = Inr (off, cap)" and b: "table_seq x (Suc n) = Inr (off', cap')"
    from a have "off = level_offset x n" "cap = level_capacity n"
      by (simp_all add: table_seq_closed [of x n] split: if_splits)
    moreover from b have "off' = level_offset x (Suc n)" "cap' = level_capacity (Suc n)"
      by (simp_all add: table_seq_closed [of x "Suc n"] split: if_splits
          del: table_seq.simps level_offset.simps level_capacity.simps)
    ultimately show "off < off' \<and> cap < cap'"
      using level_offset_less [of x n] level_capacity_less [of n] by simp
  qed
qed

theorem level_growth_witness:
  "table_seq ref_env 1 = Inr (16384, 2048) \<and> table_seq ref_env (Suc 1) = Inr (49152, 4096) \<and>
   (16384 :: int) < 49152 \<and> (2048 :: int) < 4096"
  using level_growth [of ref_env 1]
  by (simp add: ref_env_def next_table_def FIRST_TABLE_RECORDS_def MAX_SIZE_def
      RECORD_LEN_def TAG_LEN_def)

subsection \<open>The loop and the descriptor operations\<close>

lemma store_loop_induct [consumes 1, case_names step]:
  assumes run: "store_loop x tag now skew tbl avail_offset seed w = Some y"
    and step: "\<And>loop x tag now skew tbl avail_offset seed w y.
      (\<And>x tag now skew tbl avail_offset seed w y.
          loop x tag now skew tbl avail_offset seed w = Some y \<Longrightarrow>
          P x tag now skew tbl avail_offset seed w y) \<Longrightarrow>
      (case next_table x tbl of
         Inl e \<Rightarrow> Some (Inl e, w)
       | Inr tbl' \<Rightarrow>
          (let record_offset = bucket_offset x tag seed tbl' in
           case read_records w record_offset of
             (Inl e, w1) \<Rightarrow> Some (Inl e, w1)
           | (Inr recs, w1) \<Rightarrow>
               if is_repeat tag recs then Some (Inl KRB5KRB_AP_ERR_REPEAT, w1)
               else
                 (let avail_offset' = select_avail x now skew avail_offset record_offset recs in
                  if stop_here recs then Some (write_record w1 avail_offset' tag now)
                  else loop x tag now skew tbl' avail_offset'
                         (seed[0 := seed ! 0 + 1]) w1))) = Some y \<Longrightarrow>
      P x tag now skew tbl avail_offset seed w y"
  shows "P x tag now skew tbl avail_offset seed w y"
proof (rule store_loop.raw_induct [where P = P and xa = "(((((((x, tag), now), skew), tbl), avail_offset), seed), w)" and y = y, unfolded prod.case])
  show "store_loop x tag now skew tbl avail_offset seed w = Some y"
    by (rule run)
next
  fix loop x tag now skew tbl avail_offset seed w y
  assume ih: "\<And>x tag now skew tbl avail_offset seed w y.
          loop x tag now skew tbl avail_offset seed w = Some y \<Longrightarrow>
          P x tag now skew tbl avail_offset seed w y"
    and body: "(case next_table x tbl of
         Inl e \<Rightarrow> Some (Inl e, w)
       | Inr tbl' \<Rightarrow>
          (let record_offset = bucket_offset x tag seed tbl' in
           case read_records w record_offset of
             (Inl e, w1) \<Rightarrow> Some (Inl e, w1)
           | (Inr recs, w1) \<Rightarrow>
               if is_repeat tag recs then Some (Inl KRB5KRB_AP_ERR_REPEAT, w1)
               else
                 (let avail_offset' = select_avail x now skew avail_offset record_offset recs in
                  if stop_here recs then Some (write_record w1 avail_offset' tag now)
                  else loop x tag now skew tbl' avail_offset'
                         (seed[0 := seed ! 0 + 1]) w1))) = Some y"
  show "P x tag now skew tbl avail_offset seed w y"
    by (rule step [where loop = loop, OF ih body])
qed

lemma lseek_set_facts:
  "lseek_set w off = (r, w1) \<Longrightarrow>
     bytes w1 = bytes w \<and> fate w1 = fate w \<and> held w1 = held w \<and> ticks w1 = Suc (ticks w)"
  by (auto simp: lseek_set_def tick_def split: outcome.splits if_splits)

lemma lseek_set_ok:
  "lseek_set w off = (Inr u, w1) \<Longrightarrow> 0 \<le> off \<and> pos w1 = nat off"
  by (auto simp: lseek_set_def tick_def split: outcome.splits if_splits)

lemma sys_read_facts:
  "sys_read w n = (r, w1) \<Longrightarrow>
     bytes w1 = bytes w \<and> fate w1 = fate w \<and> held w1 = held w \<and> ticks w1 = Suc (ticks w)"
  by (auto simp: sys_read_def tick_def Let_def split: outcome.splits)

lemma read_records_facts:
  "read_records w off = (r, w1) \<Longrightarrow>
     bytes w1 = bytes w \<and> fate w1 = fate w \<and> held w1 = held w"
  by (auto simp: read_records_def split: prod.splits sum.splits
      dest!: lseek_set_facts sys_read_facts)

lemma read_records_ok:
  "read_records w off = (Inr recs, w1) \<Longrightarrow> ticks w1 = ticks w + 2 \<and> length recs \<le> 2"
  by (auto simp: read_records_def split: prod.splits sum.splits
      dest!: lseek_set_facts sys_read_facts)

lemma length_marshal_le: "length (marshal tag ts) \<le> RECORD_LEN"
  by (simp add: marshal_def RECORD_LEN_def length_store_32_be)

lemma sys_write_facts:
  "sys_write w buf = (r, w1) \<Longrightarrow>
     fate w1 = fate w \<and> held w1 = held w \<and> ticks w1 = Suc (ticks w)"
  by (auto simp: sys_write_def tick_def Let_def split: outcome.splits)

lemma sys_write_err:
  "sys_write w buf = (Inl e, w1) \<Longrightarrow> bytes w1 = bytes w"
  by (auto simp: sys_write_def tick_def Let_def split: outcome.splits)

lemma sys_write_ok:
  "sys_write w buf = (Inr st, w1) \<Longrightarrow>
     st \<le> length buf \<and> bytes w1 = overwrite (bytes w) (pos w) (take st buf) \<and>
     (st = length buf \<or> (\<exists>n. fate w n = Short st))"
proof (cases "fate w (ticks w)")
  case Completes
  assume "sys_write w buf = (Inr st, w1)"
  with Completes show ?thesis
    by (auto simp: sys_write_def tick_def)
next
  case (Fails e)
  assume "sys_write w buf = (Inr st, w1)"
  with Fails show ?thesis
    by (simp add: sys_write_def)
next
  case (Short k)
  assume "sys_write w buf = (Inr st, w1)"
  with Short have st: "st = min (length buf) k"
    and w1: "bytes w1 = overwrite (bytes w) (pos w) (take k buf)"
    by (auto simp: sys_write_def tick_def Let_def)
  show ?thesis
  proof (cases "length buf \<le> k")
    case True
    with st w1 show ?thesis by simp
  next
    case False
    with st have "st = k" "k \<le> length buf" by simp_all
    with w1 Short show ?thesis by auto
  qed
qed

lemma write_record_facts:
  "write_record w off tag ts = (r, w1) \<Longrightarrow> fate w1 = fate w \<and> held w1 = held w"
  by (auto simp: write_record_def split: prod.splits sum.splits if_splits
      dest!: lseek_set_facts sys_write_facts)

lemma write_record_ok:
  assumes "write_record w off tag ts = (Inr u, w1)"
  shows "0 \<le> off \<and> bytes w1 = overwrite (bytes w) (nat off) (marshal tag ts)"
proof -
  from assms obtain wa wb st where
    a: "lseek_set w off = (Inr (), wa)" and b: "sys_write wa (marshal tag ts) = (Inr st, wb)"
    and c: "st = RECORD_LEN" and d: "w1 = wb"
    by (auto simp: write_record_def split: prod.splits sum.splits if_splits)
  from b c length_marshal_le [of tag ts] have "take st (marshal tag ts) = marshal tag ts"
    by (auto dest!: sys_write_ok)
  with a b d show ?thesis
    using lseek_set_ok [OF a] lseek_set_facts [OF a] sys_write_ok [OF b] by simp
qed

lemma write_record_err:
  assumes "write_record w off tag ts = (Inl e, w1)"
  shows "bytes w1 = bytes w \<or>
         (e = EIO \<and> 0 \<le> off \<and>
          (\<exists>k < RECORD_LEN. (length tag < TAG_LEN \<or> (\<exists>n. fate w n = Short k)) \<and>
             bytes w1 = overwrite (bytes w) (nat off) (take k (marshal tag ts))))"
proof (cases "lseek_set w off")
  case (Pair r wa)
  note seek = this
  show ?thesis
  proof (cases r)
    case (Inl e')
    with assms seek lseek_set_facts [OF seek] show ?thesis
      by (simp add: write_record_def)
  next
    case (Inr u)
    with seek have seek': "lseek_set w off = (Inr u, wa)" by simp
    obtain r' wb where wr: "sys_write wa (marshal tag ts) = (r', wb)"
      by (cases "sys_write wa (marshal tag ts)")
    show ?thesis
    proof (cases r')
      case (Inl e')
      with assms seek' wr sys_write_err [of wa "marshal tag ts" e' wb] lseek_set_facts [OF seek']
      show ?thesis
        by (simp add: write_record_def)
    next
      case (Inr st)
      with wr have wr': "sys_write wa (marshal tag ts) = (Inr st, wb)" by simp
      from assms seek' wr' have e: "e = EIO" "w1 = wb" "st \<noteq> RECORD_LEN"
        by (simp_all add: write_record_def split: if_splits)
      from sys_write_ok [OF wr'] length_marshal_le [of tag ts] e have st: "st < RECORD_LEN"
        by simp
      from sys_write_ok [OF wr'] st lseek_set_facts [OF seek']
      have "length tag < TAG_LEN \<or> (\<exists>n. fate w n = Short st)"
        by (auto simp: marshal_def RECORD_LEN_def length_store_32_be)
      with st e sys_write_ok [OF wr'] lseek_set_ok [OF seek'] lseek_set_facts [OF seek']
      show ?thesis by auto
    qed
  qed
qed

lemma select_avail_set: "avail \<noteq> - 1 \<Longrightarrow> select_avail x now skew avail ro recs = avail"
  by (simp add: select_avail_def)

lemma store_loop_avail:
  assumes "store_loop x tag now skew tbl avail seed w = Some y"
  shows "0 \<le> avail \<Longrightarrow> fst y = Inr () \<Longrightarrow>
         bytes (snd y) = overwrite (bytes w) (nat avail) (marshal tag now)"
  using assms
proof (induction rule: store_loop_induct)
  case (step loop x tag now skew tbl avail seed w y)
  note body = step.hyps and ok = step.prems
  show ?case
  proof (cases "next_table x tbl")
    case (Inl e)
    with body ok show ?thesis by auto
  next
    case (Inr tbl')
    obtain r w1 where rd: "read_records w (bucket_offset x tag seed tbl') = (r, w1)"
      by (cases "read_records w (bucket_offset x tag seed tbl')")
    have keep: "select_avail x now skew avail (bucket_offset x tag seed tbl') recs = avail" for recs
      using ok by (simp add: select_avail_set)
    show ?thesis
    proof (cases r)
      case (Inl e)
      with body ok Inr rd show ?thesis by (auto simp: Let_def)
    next
      case recs: (Inr recs)
      show ?thesis
      proof (cases "is_repeat tag recs")
        case True
        with body ok Inr rd recs show ?thesis by (auto simp: Let_def)
      next
        case False
        show ?thesis
        proof (cases "stop_here recs")
          case True
          with body Inr rd recs False keep have "write_record w1 avail tag now = y"
            by (simp add: Let_def)
          with ok have "write_record w1 avail tag now = (Inr (), snd y)"
            by (cases y) auto
          from write_record_ok [OF this] read_records_facts [OF rd] show ?thesis by simp
        next
          case nostop: False
          with body Inr rd recs False keep
          have "loop x tag now skew tbl' avail (seed[0 := seed ! 0 + 1]) w1 = Some y"
            by (simp add: Let_def)
          from step.IH [OF this ok] read_records_facts [OF rd] show ?thesis by simp
        qed
      qed
    qed
  qed
qed

lemma slot_offset_add: "slot_offset x off \<Longrightarrow> 0 \<le> k \<Longrightarrow> slot_offset x (off + k * int RECORD_LEN)"
  unfolding slot_offset_def RECORD_LEN_def TAG_LEN_def by simp presburger

lemma table_ok_start: "table_ok x (- 1, 0)"
  by (simp add: table_ok_def)

lemma next_table_ok:
  assumes "table_ok x tbl" and "next_table x tbl = Inr tbl'"
  shows "table_ok x tbl' \<and> slot_offset x (fst tbl')"
proof -
  obtain off nr where tbl: "tbl = (off, nr)" by (cases tbl)
  have first: "slot_offset x (int (K5_HASH_SEED_LEN x))"
    by (simp add: slot_offset_def)
  have later: "off \<noteq> - 1 \<Longrightarrow> slot_offset x (off + nr * int RECORD_LEN)"
    using assms(1) slot_offset_add [of x off nr] by (simp add: table_ok_def tbl)
  from assms(1) have "0 \<le> nr" by (simp add: table_ok_def tbl)
  with assms(2) first later show ?thesis
    by (auto simp: next_table_def table_ok_def tbl FIRST_TABLE_RECORDS_def Let_def
        split: if_splits)
qed

lemma bucket_offset_slot:
  assumes "0 \<le> snd tbl" and "slot_offset x (fst tbl)"
  shows "slot_offset x (bucket_offset x tag seed tbl)"
proof -
  obtain off nr where tbl: "tbl = (off, nr)" by (cases tbl)
  have "0 \<le> uint (k5_siphash24 x (take TAG_LEN tag) seed) mod nr"
    using assms(1) by (cases "nr = 0") (simp_all add: tbl)
  with assms(2) slot_offset_add show ?thesis
    by (simp add: bucket_offset_def tbl)
qed

lemma select_avail_slot:
  assumes "avail = - 1 \<or> slot_offset x avail" and "slot_offset x ro"
  shows "select_avail x now skew avail ro recs = - 1 \<or>
         slot_offset x (select_avail x now skew avail ro recs)"
  using assms slot_offset_add [of x ro 1]
  by (auto simp: select_avail_def)

lemma slot_offset_nonneg: "slot_offset x off \<Longrightarrow> 0 \<le> off"
  by (simp add: slot_offset_def)

lemma write_record_effect:
  assumes "write_record w1 avail tag now = y" and "avail = - 1 \<or> slot_offset x avail"
  shows "store_effect x tag now (bytes w1) y"
proof (cases y)
  case (Pair r w')
  show ?thesis
  proof (cases r)
    case (Inl e)
    with assms(1) Pair have wr: "write_record w1 avail tag now = (Inl e, w')" by simp
    from write_record_err [OF wr] assms(2) write_record_facts [OF wr] show ?thesis
      by (auto simp: store_effect_def Pair Inl)
  next
    case (Inr u)
    with assms(1) Pair have wr: "write_record w1 avail tag now = (Inr u, w')" by simp
    from write_record_ok [OF wr] assms(2) show ?thesis
      by (auto simp: store_effect_def Pair Inr)
  qed
qed

lemma store_loop_frame:
  assumes "store_loop x tag now skew tbl avail seed w = Some y"
  shows "table_ok x tbl \<Longrightarrow> avail = - 1 \<or> slot_offset x avail \<Longrightarrow>
         fate (snd y) = fate w \<and> held (snd y) = held w \<and> store_effect x tag now (bytes w) y"
  using assms
proof (induction rule: store_loop_induct)
  case (step loop x tag now skew tbl avail seed w y)
  note body = step.hyps and tok = step.prems(1) and aok = step.prems(2)
  show ?case
  proof (cases "next_table x tbl")
    case (Inl e)
    with body show ?thesis by (auto simp: store_effect_def)
  next
    case (Inr tbl')
    let ?ro = "bucket_offset x tag seed tbl'"
    from next_table_ok [OF tok Inr] have tok': "table_ok x tbl'" and sl: "slot_offset x (fst tbl')"
      by simp_all
    from tok' sl have ro: "slot_offset x ?ro"
      by (simp add: bucket_offset_slot table_ok_def)
    obtain r w1 where rd: "read_records w ?ro = (r, w1)"
      by (cases "read_records w ?ro")
    note same = read_records_facts [OF rd]
    show ?thesis
    proof (cases r)
      case (Inl e)
      with body Inr rd same show ?thesis by (auto simp: Let_def store_effect_def)
    next
      case recs: (Inr recs)
      let ?a = "select_avail x now skew avail ?ro recs"
      have aok': "?a = - 1 \<or> slot_offset x ?a"
        by (rule select_avail_slot [OF aok ro])
      show ?thesis
      proof (cases "is_repeat tag recs")
        case True
        with body Inr rd recs same show ?thesis by (auto simp: Let_def store_effect_def)
      next
        case False
        show ?thesis
        proof (cases "stop_here recs")
          case True
          with body Inr rd recs False have wr: "write_record w1 ?a tag now = y"
            by (simp add: Let_def)
          from write_record_effect [OF wr aok'] write_record_facts [of w1 ?a tag now "fst y" "snd y"]
            wr same
          show ?thesis by simp
        next
          case nostop: False
          with body Inr rd recs False
          have "loop x tag now skew tbl' ?a (seed[0 := seed ! 0 + 1]) w1 = Some y"
            by (simp add: Let_def)
          from step.IH [OF this tok' aok'] same show ?thesis by simp
        qed
      qed
    qed
  qed
qed

lemma store_loop_step_returns:
  assumes "\<And>tbl' avail' seed' w'. next_table x tbl = Inr tbl' \<Longrightarrow>
             store_loop x tag now skew tbl' avail' seed' w' \<noteq> None"
  shows "store_loop x tag now skew tbl avail seed w \<noteq> None"
proof (cases "next_table x tbl")
  case (Inl e)
  then show ?thesis by (subst store_loop.simps) simp
next
  case (Inr tbl')
  obtain r w1 where rd: "read_records w (bucket_offset x tag seed tbl') = (r, w1)"
    by (cases "read_records w (bucket_offset x tag seed tbl')")
  show ?thesis
  proof (cases r)
    case (Inl e)
    with Inr rd show ?thesis by (subst store_loop.simps) (simp add: Let_def)
  next
    case recs: (Inr recs)
    from assms [OF Inr] have
      "store_loop x tag now skew tbl'
         (select_avail x now skew avail (bucket_offset x tag seed tbl') recs)
         (seed[0 := seed ! 0 + 1]) w1 \<noteq> None" .
    with Inr rd recs show ?thesis by (subst store_loop.simps) (simp add: Let_def)
  qed
qed

lemma store_loop_returns_later:
  "int (K5_HASH_SEED_LEN x) < fst tbl \<Longrightarrow> 1 \<le> snd tbl \<Longrightarrow>
     store_loop x tag now skew tbl avail seed w \<noteq> None"
proof (induction "nat (2 ^ 27 - snd tbl)" arbitrary: tbl avail seed w rule: less_induct)
  case less
  show ?case
  proof (rule store_loop_step_returns)
    fix tbl' avail' seed' w'
    assume nt: "next_table x tbl = Inr tbl'"
    obtain off nr where tbl: "tbl = (off, nr)" by (cases tbl)
    from less.prems nt have tbl': "tbl' = (off + nr * int RECORD_LEN, nr * 2)"
      and small: "nr * 2 \<le> MAX_SIZE div int RECORD_LEN"
      by (auto simp: next_table_def tbl Let_def split: if_splits)
    from small less.prems have "nat (2 ^ 27 - snd tbl') < nat (2 ^ 27 - snd tbl)"
      by (simp add: tbl tbl' MAX_SIZE_def RECORD_LEN_def TAG_LEN_def)
    moreover from less.prems have "int (K5_HASH_SEED_LEN x) < fst tbl'" "1 \<le> snd tbl'"
      by (simp_all add: tbl tbl' RECORD_LEN_def TAG_LEN_def)
    ultimately show "store_loop x tag now skew tbl' avail' seed' w' \<noteq> None"
      by (rule less.hyps)
  qed
qed

lemma store_loop_returns_second:
  "store_loop x tag now skew (int (K5_HASH_SEED_LEN x), FIRST_TABLE_RECORDS) avail seed w \<noteq> None"
proof (rule store_loop_step_returns)
  fix tbl' avail' seed' w'
  assume "next_table x (int (K5_HASH_SEED_LEN x), FIRST_TABLE_RECORDS) = Inr tbl'"
  then have "int (K5_HASH_SEED_LEN x) < fst tbl'" "1 \<le> snd tbl'"
    by (auto simp: next_table_def Let_def FIRST_TABLE_RECORDS_def RECORD_LEN_def TAG_LEN_def
        split: if_splits)
  then show "store_loop x tag now skew tbl' avail' seed' w' \<noteq> None"
    by (rule store_loop_returns_later)
qed

lemma store_loop_returns:
  "store_loop x tag now skew (- 1, nr) avail seed w \<noteq> None"
proof (rule store_loop_step_returns)
  fix tbl' avail' seed' w'
  assume "next_table x (- 1, nr) = Inr tbl'"
  then have "tbl' = (int (K5_HASH_SEED_LEN x), FIRST_TABLE_RECORDS)"
    by (auto simp: next_table_def Let_def split: if_splits)
  then show "store_loop x tag now skew tbl' avail' seed' w' \<noteq> None"
    by (simp add: store_loop_returns_second)
qed

lemma store_returns: "store x ctx w tag now skew \<noteq> None"
  by (cases "hash_seed x ctx w")
    (simp add: store_def store_loop_returns split: sum.splits del: not_None_eq)

lemma k5_rcfile2_store_returns: "k5_rcfile2_store x ctx w data \<noteq> None"
  by (simp add: k5_rcfile2_store_def Let_def store_returns
      split: sum.splits prod.splits option.splits del: not_None_eq)

lemma read_records_clean:
  assumes "fate w = (\<lambda>_. Completes)" and "0 \<le> off"
  shows "\<exists>w1. read_records w off = (Inr (bucket_at (bytes w) (nat off)), w1) \<and>
              bytes w1 = bytes w \<and> fate w1 = fate w \<and> held w1 = held w \<and>
              ticks w1 = ticks w + 2"
  using assms
  by (simp add: read_records_def lseek_set_def sys_read_def tick_def bucket_at_def Let_def)

lemma write_record_clean:
  assumes "fate w = (\<lambda>_. Completes)" and "0 \<le> off" and "TAG_LEN \<le> length tag"
  shows "\<exists>w1. write_record w off tag ts = (Inr (), w1) \<and>
              bytes w1 = overwrite (bytes w) (nat off) (marshal tag ts) \<and>
              fate w1 = fate w \<and> held w1 = held w \<and> ticks w1 = ticks w + 2"
  using assms length_marshal [of tag ts]
  by (simp add: write_record_def lseek_set_def sys_write_def tick_def)

lemma hash_seed_fresh:
  assumes "bytes w = []" and "pos w = 0" and "fate w = (\<lambda>_. Completes)"
    and "krb5_c_random_make_octets ctx = Inr s" and "length s = K5_HASH_SEED_LEN x"
  shows "\<exists>w1. hash_seed x ctx w = (Inr s, w1) \<and> bytes w1 = s \<and> fate w1 = fate w \<and>
              held w1 = held w"
  using assms
  by (cases "K5_HASH_SEED_LEN x = 0")
    (auto simp: hash_seed_def sys_read_def sys_write_def tick_def overwrite_def)

lemma hash_seed_present:
  assumes "pos w = 0" and "fate w = (\<lambda>_. Completes)"
    and "K5_HASH_SEED_LEN x \<le> length (bytes w)"
  shows "\<exists>w1. hash_seed x ctx w = (Inr (take (K5_HASH_SEED_LEN x) (bytes w)), w1) \<and>
              bytes w1 = bytes w \<and> fate w1 = fate w \<and> held w1 = held w"
  using assms
  by (auto simp: hash_seed_def sys_read_def tick_def)

lemma bucket_offset_first:
  "bucket_offset x tag seed (int (K5_HASH_SEED_LEN x), FIRST_TABLE_RECORDS) =
     int (K5_HASH_SEED_LEN x) +
     int (RECORD_LEN * nat (uint (k5_siphash24 x (take TAG_LEN tag) seed) mod 1023))"
  by (simp add: bucket_offset_def FIRST_TABLE_RECORDS_def)

lemma next_table_start:
  "int (K5_HASH_SEED_LEN x) + 1023 * int RECORD_LEN \<le> MAX_SIZE \<Longrightarrow>
     next_table x (- 1, nr) = Inr (int (K5_HASH_SEED_LEN x), FIRST_TABLE_RECORDS)"
  by (simp add: next_table_def FIRST_TABLE_RECORDS_def MAX_SIZE_def RECORD_LEN_def TAG_LEN_def)

lemma bucket_at_beyond: "length bs \<le> p \<Longrightarrow> bucket_at bs p = []"
  by (simp add: bucket_at_def RECORD_LEN_def TAG_LEN_def)

lemma bucket_at_last:
  "length tag = TAG_LEN \<Longrightarrow> p = length pre \<Longrightarrow>
     bucket_at (pre @ marshal tag ts) p = [(tag, ts)]"
  using parse_marshal [of tag ts "[]"] length_marshal [of tag ts]
  by (simp add: bucket_at_def Let_def RECORD_LEN_def TAG_LEN_def)

lemma store_first:
  assumes empty: "bytes w = []" "pos w = 0" and clean: "fate w = (\<lambda>_. Completes)"
    and rnd: "krb5_c_random_make_octets ctx = Inr s" "length s = K5_HASH_SEED_LEN x"
    and fits0: "int (K5_HASH_SEED_LEN x) + 1023 * int RECORD_LEN \<le> MAX_SIZE"
    and tag: "length tag = TAG_LEN"
  shows "\<exists>w'. store x ctx w tag now skew = Some (Inr (), w') \<and>
              bytes w' = s @ replicate (RECORD_LEN * first_index x tag s) 0 @ marshal tag now \<and>
              fate w' = fate w \<and> held w' = held w"
proof -
  let ?ro = "bucket_offset x tag s (int (K5_HASH_SEED_LEN x), FIRST_TABLE_RECORDS)"
  have ro: "?ro = int (K5_HASH_SEED_LEN x) + int (RECORD_LEN * first_index x tag s)"
    by (simp add: bucket_offset_first first_index_def)
  from hash_seed_fresh [OF empty clean rnd] obtain w1 where
    hs: "hash_seed x ctx w = (Inr s, w1)" and w1: "bytes w1 = s" "fate w1 = fate w" "held w1 = held w"
    by blast
  from w1 clean have clean1: "fate w1 = (\<lambda>_. Completes)" by simp
  have ro0: "0 \<le> ?ro" by (simp add: ro)
  have nro: "nat ?ro = K5_HASH_SEED_LEN x + RECORD_LEN * first_index x tag s"
    unfolding ro by (simp only: nat_int_add)
  from read_records_clean [OF clean1 ro0] obtain w2 where
    rd: "read_records w1 ?ro = (Inr (bucket_at (bytes w1) (nat ?ro)), w2)"
    and w2: "bytes w2 = bytes w1" "fate w2 = fate w1" "held w2 = held w1"
    by blast
  have none: "bucket_at (bytes w1) (nat ?ro) = []"
    by (rule bucket_at_beyond) (simp add: w1 rnd nro)
  from w2 clean1 have clean2: "fate w2 = (\<lambda>_. Completes)" by simp
  from tag have tag': "TAG_LEN \<le> length tag" by simp
  from write_record_clean [OF clean2 ro0 tag'] obtain w3 where
    wr: "write_record w2 ?ro tag now = (Inr (), w3)"
    and w3: "bytes w3 = overwrite (bytes w2) (nat ?ro) (marshal tag now)"
      "fate w3 = fate w2" "held w3 = held w2"
    by blast
  have "store x ctx w tag now skew = Some (Inr (), w3)"
    unfolding store_def hs
    by (subst store_loop.simps)
      (simp add: next_table_start [OF fits0] rd none is_repeat_def select_avail_def
        stop_here_def wr)
  moreover have "bytes w3 = s @ replicate (RECORD_LEN * first_index x tag s) 0 @ marshal tag now"
    by (simp add: w3 w2 w1 nro overwrite_def rnd)
  ultimately show ?thesis using w1 w2 w3 by simp
qed

lemma store_again:
  assumes contents: "bytes w = s @ replicate (RECORD_LEN * first_index x tag s) 0 @ marshal tag t1"
    and start: "pos w = 0" and clean: "fate w = (\<lambda>_. Completes)"
    and seed: "length s = K5_HASH_SEED_LEN x"
    and fits0: "int (K5_HASH_SEED_LEN x) + 1023 * int RECORD_LEN \<le> MAX_SIZE"
    and tag: "length tag = TAG_LEN"
  shows "\<exists>w'. store x ctx w tag t2 skew = Some (Inl KRB5KRB_AP_ERR_REPEAT, w') \<and>
              bytes w' = bytes w"
proof -
  let ?ro = "bucket_offset x tag s (int (K5_HASH_SEED_LEN x), FIRST_TABLE_RECORDS)"
  have ro: "?ro = int (K5_HASH_SEED_LEN x) + int (RECORD_LEN * first_index x tag s)"
    by (simp add: bucket_offset_first first_index_def)
  have full: "K5_HASH_SEED_LEN x \<le> length (bytes w)"
    by (simp add: contents seed)
  from hash_seed_present [OF start clean full, of ctx] obtain w1 where
    hs: "hash_seed x ctx w = (Inr (take (K5_HASH_SEED_LEN x) (bytes w)), w1)"
    and w1: "bytes w1 = bytes w" "fate w1 = fate w"
    by blast
  have s: "take (K5_HASH_SEED_LEN x) (bytes w) = s"
    by (simp add: contents seed)
  from w1 clean have clean1: "fate w1 = (\<lambda>_. Completes)" by simp
  have ro0: "0 \<le> ?ro" by (simp add: ro)
  have nro: "nat ?ro = K5_HASH_SEED_LEN x + RECORD_LEN * first_index x tag s"
    unfolding ro by (simp only: nat_int_add)
  from read_records_clean [OF clean1 ro0] obtain w2 where
    rd: "read_records w1 ?ro = (Inr (bucket_at (bytes w1) (nat ?ro)), w2)"
    and w2: "bytes w2 = bytes w1"
    by blast
  have "bucket_at (s @ replicate (RECORD_LEN * first_index x tag s) 0 @ marshal tag t1) (nat ?ro)
          = [(tag, t1)]"
    using bucket_at_last [OF tag, of "nat ?ro" "s @ replicate (RECORD_LEN * first_index x tag s) 0" t1]
    by (simp add: nro seed)
  then have one: "bucket_at (bytes w1) (nat ?ro) = [(tag, t1)]"
    by (simp add: w1 contents)
  have "store x ctx w tag t2 skew = Some (Inl KRB5KRB_AP_ERR_REPEAT, w2)"
    unfolding store_def hs s
    by (subst store_loop.simps)
      (simp add: next_table_start [OF fits0] rd one is_repeat_def)
  with w1 w2 show ?thesis by simp
qed

subsection \<open>Storing on a fresh cache\<close>

lemma store_evicts:
  assumes contents: "bytes w = s @ replicate (RECORD_LEN * first_index x tag s) 0 @ marshal tag t1"
    and start: "pos w = 0" and clean: "fate w = (\<lambda>_. Completes)"
    and seed: "length s = K5_HASH_SEED_LEN x"
    and fits0: "int (K5_HASH_SEED_LEN x) + 1023 * int RECORD_LEN \<le> MAX_SIZE"
    and tag: "length tag = TAG_LEN" and tag': "length tag' = TAG_LEN" and other: "tag' \<noteq> tag"
    and same: "first_index x tag' s = first_index x tag s"
    and expired: "ts_after x t2 (ts_incr x t1 skew)"
  shows "\<exists>w'. store x ctx w tag' t2 skew = Some (Inr (), w') \<and>
              bytes w' = s @ replicate (RECORD_LEN * first_index x tag s) 0 @ marshal tag' t2"
proof -
  let ?ro = "bucket_offset x tag' s (int (K5_HASH_SEED_LEN x), FIRST_TABLE_RECORDS)"
  have "?ro = int (K5_HASH_SEED_LEN x) + int (RECORD_LEN * first_index x tag' s)"
    by (simp add: bucket_offset_first first_index_def)
  then have ro: "?ro = int (K5_HASH_SEED_LEN x) + int (RECORD_LEN * first_index x tag s)"
    by (simp only: same)
  have full: "K5_HASH_SEED_LEN x \<le> length (bytes w)"
    by (simp add: contents seed)
  from hash_seed_present [OF start clean full, of ctx] obtain w1 where
    hs: "hash_seed x ctx w = (Inr (take (K5_HASH_SEED_LEN x) (bytes w)), w1)"
    and w1: "bytes w1 = bytes w" "fate w1 = fate w"
    by blast
  have s: "take (K5_HASH_SEED_LEN x) (bytes w) = s"
    by (simp add: contents seed)
  from w1 clean have clean1: "fate w1 = (\<lambda>_. Completes)" by simp
  have ro0: "0 \<le> ?ro" by (simp add: ro)
  have nro: "nat ?ro = K5_HASH_SEED_LEN x + RECORD_LEN * first_index x tag s"
    unfolding ro by (simp only: nat_int_add)
  from read_records_clean [OF clean1 ro0] obtain w2 where
    rd: "read_records w1 ?ro = (Inr (bucket_at (bytes w1) (nat ?ro)), w2)"
    and w2: "bytes w2 = bytes w1" "fate w2 = fate w1"
    by blast
  have "bucket_at (s @ replicate (RECORD_LEN * first_index x tag s) 0 @ marshal tag t1) (nat ?ro)
          = [(tag, t1)]"
    using bucket_at_last [OF tag, of "nat ?ro" "s @ replicate (RECORD_LEN * first_index x tag s) 0" t1]
    by (simp add: nro seed)
  then have one: "bucket_at (bytes w1) (nat ?ro) = [(tag, t1)]"
    by (simp add: w1 contents)
  from w2 clean1 have clean2: "fate w2 = (\<lambda>_. Completes)" by simp
  from tag' have tag'': "TAG_LEN \<le> length tag'" by simp
  from write_record_clean [OF clean2 ro0 tag''] obtain w3 where
    wr: "write_record w2 ?ro tag' t2 = (Inr (), w3)"
    and w3: "bytes w3 = overwrite (bytes w2) (nat ?ro) (marshal tag' t2)"
    by blast
  have "store x ctx w tag' t2 skew = Some (Inr (), w3)"
    unfolding store_def hs s
    by (subst store_loop.simps)
      (simp add: next_table_start [OF fits0] rd one is_repeat_def select_avail_def
        stop_here_def wr tag tag' other other [symmetric] expired)
  moreover have "bytes w3 = s @ replicate (RECORD_LEN * first_index x tag s) 0 @ marshal tag' t2"
    using length_marshal [of tag t1] length_marshal [of tag' t2] tag tag'
    by (simp add: w3 w2 w1 contents nro overwrite_def seed)
  ultimately show ?thesis by simp
qed

lemma reopen_simps:
  "bytes (reopen w) = bytes w" "pos (reopen w) = 0" "fate (reopen w) = fate w"
  "held (reopen w) = held w" "ticks (reopen w) = ticks w"
  by (simp_all add: reopen_def)

text \<open>
  C2.  No false negatives.  On a fresh cache (an empty file on which every
  operation completes, the generator yielding a seed of the seed length), for every
  12-byte tag and all times \<open>t1 \<le> t2\<close> with \<open>t2 - t1 \<le> skew\<close>, the first
  \<^verbatim>\<open>store\<close> succeeds and the second one, on the file reopened, fails with
  \<^verbatim>\<open>KRB5KRB_AP_ERR_REPEAT\<close>.
\<close>

theorem no_false_negative:
  assumes "bytes w = []" and "pos w = 0" and "fate w = (\<lambda>_. Completes)"
    and "krb5_c_random_make_octets ctx = Inr s" and "length s = K5_HASH_SEED_LEN x"
    and "int (K5_HASH_SEED_LEN x) + 1023 * int RECORD_LEN \<le> MAX_SIZE"
    and "length tag = TAG_LEN"
    and "t1 \<le> t2" and "t2 - t1 \<le> skew"
  shows "\<exists>w1 w2. store x ctx w tag t1 skew = Some (Inr (), w1) \<and>
           store x ctx' (reopen w1) tag t2 skew = Some (Inl KRB5KRB_AP_ERR_REPEAT, w2)"
proof -
  from store_first [OF assms(1-7), of t1 skew] obtain w1 where
    first: "store x ctx w tag t1 skew = Some (Inr (), w1)"
    and w1: "bytes w1 = s @ replicate (RECORD_LEN * first_index x tag s) 0 @ marshal tag t1"
      "fate w1 = fate w"
    by blast
  have "\<exists>w2. store x ctx' (reopen w1) tag t2 skew = Some (Inl KRB5KRB_AP_ERR_REPEAT, w2) \<and>
          bytes w2 = bytes (reopen w1)"
    by (rule store_again [where s = s and ?t1.0 = t1])
      (simp_all add: reopen_simps w1 assms)
  with first show ?thesis by blast
qed

theorem no_false_negative_witness:
  "bytes empty_file = [] \<and> pos empty_file = 0 \<and> fate empty_file = (\<lambda>_. Completes) \<and>
   krb5_c_random_make_octets ref_context = Inr (replicate 16 1) \<and>
   length (replicate 16 1 :: u8 list) = K5_HASH_SEED_LEN ref_env \<and>
   int (K5_HASH_SEED_LEN ref_env) + 1023 * int RECORD_LEN \<le> MAX_SIZE \<and>
   length tag_a = TAG_LEN \<and> (1000 :: u32) \<le> 1200 \<and> (1200 :: u32) - 1000 \<le> 300 \<and>
   (\<exists>w1 w2. store ref_env ref_context empty_file tag_a 1000 300 = Some (Inr (), w1) \<and>
      store ref_env ref_context (reopen w1) tag_a 1200 300
        = Some (Inl KRB5KRB_AP_ERR_REPEAT, w2))"
proof -
  have h: "bytes empty_file = []" "pos empty_file = 0" "fate empty_file = (\<lambda>_. Completes)"
    "krb5_c_random_make_octets ref_context = Inr (replicate 16 1)"
    "length (replicate 16 1 :: u8 list) = K5_HASH_SEED_LEN ref_env"
    "int (K5_HASH_SEED_LEN ref_env) + 1023 * int RECORD_LEN \<le> MAX_SIZE"
    "length tag_a = TAG_LEN" "(1000 :: u32) \<le> 1200" "(1200 :: u32) - 1000 \<le> 300"
    by (simp_all add: empty_file_def ref_context_def ref_env_def RECORD_LEN_def TAG_LEN_def
        MAX_SIZE_def tag_a_def)
  from no_false_negative [OF h, of ref_context] h show ?thesis
    by blast
qed

lemma first_index_samples:
  "first_index ref_env tag_a (replicate 16 1) = 17"
  "first_index ref_env tag_b (replicate 16 1) = 17"
  "first_index ref_env tag_c (replicate 16 1) = 18"
  by (simp_all add: first_index_def ref_env_def sum_hash_def tag_a_def tag_b_def tag_c_def
      TAG_LEN_def sum_list_replicate)

lemma ref_env_simps:
  "K5_HASH_SEED_LEN ref_env = 16" "ts_incr ref_env = ts_incr_spec"
  "ts_after ref_env = ts_after_spec" "k5_siphash24 ref_env = sum_hash"
  by (simp_all add: ref_env_def)

lemma ref_fresh:
  "bytes empty_file = []" "pos empty_file = 0" "fate empty_file = (\<lambda>_. Completes)"
  "krb5_c_random_make_octets ref_context = Inr (replicate 16 1)"
  "length (replicate 16 1 :: u8 list) = K5_HASH_SEED_LEN ref_env"
  "int (K5_HASH_SEED_LEN ref_env) + 1023 * int RECORD_LEN \<le> MAX_SIZE"
  "length tag_a = TAG_LEN"
  by (simp_all add: empty_file_def ref_context_def ref_env_def RECORD_LEN_def TAG_LEN_def
      MAX_SIZE_def tag_a_def)

text \<open>
  C1, as stated, fails: storing \<open>tag_a\<close> at time 1000 with skew 300 on the empty
  file succeeds, and storing it again at time 1301 is rejected as a replay.  The
  duplicate check of \<^verbatim>\<open>store\<close> compares tags only and comes before any look at
  the timestamps.
\<close>

theorem eviction_after_expiry_counterexample:
  "fst (the (store ref_env ref_context empty_file tag_a 1000 300)) = Inr () \<and>
   fst (the (store ref_env ref_context
               (reopen (snd (the (store ref_env ref_context empty_file tag_a 1000 300))))
               tag_a (1000 + 300 + 1) 300))
     = Inl KRB5KRB_AP_ERR_REPEAT"
proof -
  from store_first [OF ref_fresh, of 1000 300] obtain w1 where
    first: "store ref_env ref_context empty_file tag_a 1000 300 = Some (Inr (), w1)"
    and w1: "bytes w1 = replicate 16 1
               @ replicate (RECORD_LEN * first_index ref_env tag_a (replicate 16 1)) 0
               @ marshal tag_a 1000"
      "fate w1 = fate empty_file"
    by blast
  have c: "bytes (reopen w1) = replicate 16 1
               @ replicate (RECORD_LEN * first_index ref_env tag_a (replicate 16 1)) 0
               @ marshal tag_a 1000"
    and p: "pos (reopen w1) = 0" and cl: "fate (reopen w1) = (\<lambda>_. Completes)"
    by (simp_all add: reopen_simps w1 ref_fresh(3))
  from store_again [OF c p cl ref_fresh(5) ref_fresh(6) ref_fresh(7),
      of ref_context "1000 + 300 + 1" 300]
  obtain w2 where "store ref_env ref_context (reopen w1) tag_a (1000 + 300 + 1) 300
                     = Some (Inl KRB5KRB_AP_ERR_REPEAT, w2)"
    by blast
  with first show ?thesis by simp
qed

text \<open>
  C1, amended.  On a fresh cache, \<^verbatim>\<open>store\<close> of a tag at \<open>t1\<close> succeeds; a second
  \<^verbatim>\<open>store\<close> of the same tag at \<open>t1 + skew + 1\<close> is rejected with
  \<^verbatim>\<open>KRB5KRB_AP_ERR_REPEAT\<close> and leaves the file as it is.  The expired slot is
  overwritten by a \<^verbatim>\<open>store\<close> of a different tag that hashes to the same bucket:
  that call succeeds and the slot then holds the new tag and time.
\<close>

theorem expired_same_tag_is_replay:
  assumes "bytes w = []" and "pos w = 0" and "fate w = (\<lambda>_. Completes)"
    and "krb5_c_random_make_octets ctx = Inr s" and "length s = K5_HASH_SEED_LEN x"
    and "int (K5_HASH_SEED_LEN x) + 1023 * int RECORD_LEN \<le> MAX_SIZE"
    and "length tag = TAG_LEN"
  shows "\<exists>w1. store x ctx w tag t1 skew = Some (Inr (), w1) \<and>
           (\<exists>w2. store x ctx' (reopen w1) tag (t1 + skew + 1) skew
                    = Some (Inl KRB5KRB_AP_ERR_REPEAT, w2) \<and> bytes w2 = bytes w1) \<and>
           (\<forall>tag' t2. length tag' = TAG_LEN \<and> tag' \<noteq> tag \<and>
                first_index x tag' s = first_index x tag s \<and>
                ts_after x t2 (ts_incr x t1 skew) \<longrightarrow>
                (\<exists>w3. store x ctx' (reopen w1) tag' t2 skew = Some (Inr (), w3) \<and>
                   bucket_at (bytes w3) (K5_HASH_SEED_LEN x + RECORD_LEN * first_index x tag s)
                     = [(tag', t2)]))"
proof -
  from store_first [OF assms, of t1 skew] obtain w1 where
    first: "store x ctx w tag t1 skew = Some (Inr (), w1)"
    and w1: "bytes w1 = s @ replicate (RECORD_LEN * first_index x tag s) 0 @ marshal tag t1"
      "fate w1 = fate w"
    by blast
  have again: "\<exists>w2. store x ctx' (reopen w1) tag (t1 + skew + 1) skew
                  = Some (Inl KRB5KRB_AP_ERR_REPEAT, w2) \<and> bytes w2 = bytes w1"
    using store_again [where w = "reopen w1" and s = s and ?t1.0 = t1 and x = x and tag = tag
        and ctx = ctx' and ?t2.0 = "t1 + skew + 1" and skew = skew]
    by (simp add: reopen_simps w1 assms)
  have evict: "\<exists>w3. store x ctx' (reopen w1) tag' t2 skew = Some (Inr (), w3) \<and>
                   bucket_at (bytes w3) (K5_HASH_SEED_LEN x + RECORD_LEN * first_index x tag s)
                     = [(tag', t2)]"
    if other: "length tag' = TAG_LEN" "tag' \<noteq> tag" "first_index x tag' s = first_index x tag s"
      "ts_after x t2 (ts_incr x t1 skew)" for tag' t2
  proof -
    have "\<exists>w3. store x ctx' (reopen w1) tag' t2 skew = Some (Inr (), w3) \<and>
            bytes w3 = s @ replicate (RECORD_LEN * first_index x tag s) 0 @ marshal tag' t2"
      by (rule store_evicts [where ?t1.0 = t1])
        (simp_all add: reopen_simps w1 assms other)
    then obtain w3 where
      st: "store x ctx' (reopen w1) tag' t2 skew = Some (Inr (), w3)"
      and w3: "bytes w3 = s @ replicate (RECORD_LEN * first_index x tag s) 0 @ marshal tag' t2"
      by blast
    have "bucket_at (bytes w3) (K5_HASH_SEED_LEN x + RECORD_LEN * first_index x tag s)
            = [(tag', t2)]"
      using bucket_at_last [OF other(1), of "K5_HASH_SEED_LEN x + RECORD_LEN * first_index x tag s"
          "s @ replicate (RECORD_LEN * first_index x tag s) 0" t2]
      by (simp add: w3 assms)
    with st show ?thesis by blast
  qed
  from first again evict show ?thesis by blast
qed

theorem expired_same_tag_is_replay_witness:
  "bytes empty_file = [] \<and> pos empty_file = 0 \<and> fate empty_file = (\<lambda>_. Completes) \<and>
   krb5_c_random_make_octets ref_context = Inr (replicate 16 1) \<and>
   length (replicate 16 1 :: u8 list) = K5_HASH_SEED_LEN ref_env \<and>
   int (K5_HASH_SEED_LEN ref_env) + 1023 * int RECORD_LEN \<le> MAX_SIZE \<and>
   length tag_a = TAG_LEN \<and>
   length tag_b = TAG_LEN \<and> tag_b \<noteq> tag_a \<and>
   first_index ref_env tag_b (replicate 16 1) = first_index ref_env tag_a (replicate 16 1) \<and>
   ts_after ref_env 1301 (ts_incr ref_env 1000 300) \<and>
   (\<exists>w1. store ref_env ref_context empty_file tag_a 1000 300 = Some (Inr (), w1) \<and>
      (\<exists>w2. store ref_env ref_context (reopen w1) tag_a (1000 + 300 + 1) 300
               = Some (Inl KRB5KRB_AP_ERR_REPEAT, w2) \<and> bytes w2 = bytes w1) \<and>
      (\<exists>w3. store ref_env ref_context (reopen w1) tag_b 1301 300 = Some (Inr (), w3) \<and>
         bucket_at (bytes w3) (16 + 16 * 17) = [(tag_b, 1301)]))"
proof -
  have other: "length tag_b = TAG_LEN" "tag_b \<noteq> tag_a"
    "first_index ref_env tag_b (replicate 16 1) = first_index ref_env tag_a (replicate 16 1)"
    "ts_after ref_env 1301 (ts_incr ref_env 1000 300)"
       apply (simp add: tag_b_def TAG_LEN_def)
      apply (simp add: tag_a_def tag_b_def)
     apply (simp only: first_index_samples)
    apply (simp add: ref_env_simps ts_after_spec_def ts_incr_spec_def)
    done
  from expired_same_tag_is_replay [OF ref_fresh, of 1000 300 ref_context] obtain w1 where
    a: "store ref_env ref_context empty_file tag_a 1000 300 = Some (Inr (), w1)"
    and b: "\<exists>w2. store ref_env ref_context (reopen w1) tag_a (1000 + 300 + 1) 300
               = Some (Inl KRB5KRB_AP_ERR_REPEAT, w2) \<and> bytes w2 = bytes w1"
    and c: "\<forall>tag' t2. length tag' = TAG_LEN \<and> tag' \<noteq> tag_a \<and>
              first_index ref_env tag' (replicate 16 1) = first_index ref_env tag_a (replicate 16 1) \<and>
              ts_after ref_env t2 (ts_incr ref_env 1000 300) \<longrightarrow>
              (\<exists>w3. store ref_env ref_context (reopen w1) tag' t2 300 = Some (Inr (), w3) \<and>
                 bucket_at (bytes w3)
                   (K5_HASH_SEED_LEN ref_env + RECORD_LEN * first_index ref_env tag_a (replicate 16 1))
                   = [(tag', t2)])"
    by blast
  from c other have
    "\<exists>w3. store ref_env ref_context (reopen w1) tag_b 1301 300 = Some (Inr (), w3) \<and>
       bucket_at (bytes w3)
         (K5_HASH_SEED_LEN ref_env + RECORD_LEN * first_index ref_env tag_a (replicate 16 1))
         = [(tag_b, 1301)]"
    by blast
  then have "\<exists>w3. store ref_env ref_context (reopen w1) tag_b 1301 300 = Some (Inr (), w3) \<and>
       bucket_at (bytes w3) (16 + 16 * 17) = [(tag_b, 1301)]"
    by (simp add: first_index_samples ref_env_simps RECORD_LEN_def TAG_LEN_def)
  with a b other ref_fresh show ?thesis by blast
qed

subsection \<open>The insertion loop, level by level\<close>

lemma marshal_samples:
  "marshal tag_a ts = tag_a @ store_32_be ts"
  "marshal tag_b ts = tag_b @ store_32_be ts"
  "marshal tag_c ts = tag_c @ store_32_be ts"
  by (simp_all add: marshal_def tag_a_def tag_b_def tag_c_def TAG_LEN_def)

lemma tag_lengths: "length tag_a = 12" "length tag_b = 12" "length tag_c = 12"
  by (simp_all add: tag_a_def tag_b_def tag_c_def)

lemma bucket_offset_samples:
  "bucket_offset ref_env tag_a (replicate 16 1) (16, 1023) = 288"
  by (simp_all add: bucket_offset_def ref_env_simps sum_hash_def tag_a_def TAG_LEN_def
      RECORD_LEN_def sum_list_replicate)

lemma bucket_stored: "bucket_at (bytes stored_file) 288 = [(tag_a, 1000)]"
  using bucket_at_last [of tag_a 288 "replicate 16 1 @ replicate 272 0" 1000]
  by (simp add: stored_file_def tag_lengths TAG_LEN_def)

lemma bucket_full: "bucket_at (bytes full_bucket_file) 288 = [(tag_b, 500), (tag_c, 1900)]"
  using parse_marshal [of tag_b 500 "marshal tag_c 1900"] parse_marshal [of tag_c 1900 "[]"]
    length_marshal [of tag_b 500] length_marshal [of tag_c 1900]
  by (simp add: full_bucket_file_def bucket_at_def Let_def tag_lengths TAG_LEN_def RECORD_LEN_def)

lemma bucket_hole:
  "bucket_at (bytes hole_file) 288 = [(replicate 12 0, 0), (replicate 12 0, 0)]"
  by (simp add: hole_file_def bucket_at_def Let_def TAG_LEN_def RECORD_LEN_def parse_def
      load_32_be_def)

lemma read_records_clean_eq:
  assumes "fate w = (\<lambda>_. Completes)" and "0 \<le> off"
  shows "read_records w off =
           (Inr (bucket_at (bytes w) (nat off)),
            w\<lparr>pos := nat off + length (take (RECORD_LEN * 2) (drop (nat off) (bytes w))),
              ticks := ticks w + 2\<rparr>)"
  using assms
  by (simp add: read_records_def lseek_set_def sys_read_def tick_def bucket_at_def Let_def)

lemma is_repeat_member:
  assumes "length recs \<le> 2" and "(t, s) \<in> set recs" and "t = take TAG_LEN tag"
  shows "is_repeat tag recs"
proof -
  from assms(1) consider "recs = []" | a where "recs = [a]" | a b where "recs = [a, b]"
    by (cases recs rule: list.exhaust; simp; case_tac x22; simp)
  then show ?thesis
    using assms(2,3) by cases (auto simp: is_repeat_def)
qed

text \<open>
  C6.  At any level of the insertion loop (any table state, any value of the
  chosen slot, any seed): when the records read at this level contain one whose tag
  is the input tag, the loop returns \<^verbatim>\<open>KRB5KRB_AP_ERR_REPEAT\<close> in the state the read
  at this level left: the bytes of the file are untouched and exactly two operations
  (the seek and the read of this level) were made, so there is no selection of a
  slot, no write and no further level.
\<close>

theorem duplicate_stops:
  assumes "next_table x tbl = Inr tbl'"
    and "read_records w (bucket_offset x tag seed tbl') = (Inr recs, w1)"
    and "(t, s) \<in> set recs" and "t = take TAG_LEN tag"
  shows "store_loop x tag now skew tbl avail_offset seed w
           = Some (Inl KRB5KRB_AP_ERR_REPEAT, w1) \<and>
         bytes w1 = bytes w \<and> ticks w1 = ticks w + 2"
proof -
  from read_records_ok [OF assms(2)] have "length recs \<le> 2" by simp
  then have "is_repeat tag recs"
    using assms(3,4) by (rule is_repeat_member)
  with assms(1,2) have "store_loop x tag now skew tbl avail_offset seed w
           = Some (Inl KRB5KRB_AP_ERR_REPEAT, w1)"
    by (subst store_loop.simps) simp
  with read_records_ok [OF assms(2)] read_records_facts [OF assms(2)] show ?thesis
    by simp
qed

lemma next_table_ref: "next_table ref_env (- 1, 0) = Inr (16, 1023)"
  by (simp add: next_table_def ref_env_simps FIRST_TABLE_RECORDS_def MAX_SIZE_def
      RECORD_LEN_def TAG_LEN_def)

theorem duplicate_stops_witness:
  "next_table ref_env (- 1, 0) = Inr (16, 1023) \<and>
   read_records stored_file (bucket_offset ref_env tag_a (replicate 16 1) (16, 1023))
     = (Inr [(tag_a, 1000)], stored_file\<lparr>pos := 304, ticks := 2\<rparr>) \<and>
   (tag_a, 1000) \<in> set [(tag_a, 1000 :: u32)] \<and> tag_a = take TAG_LEN tag_a \<and>
   store_loop ref_env tag_a 5000 300 (- 1, 0) (- 1) (replicate 16 1) stored_file
     = Some (Inl KRB5KRB_AP_ERR_REPEAT, stored_file\<lparr>pos := 304, ticks := 2\<rparr>)"
proof -
  have "read_records stored_file 288
     = (Inr (bucket_at (bytes stored_file) (nat 288)),
        stored_file\<lparr>pos := nat 288 + length (take (RECORD_LEN * 2) (drop (nat 288) (bytes stored_file))),
                      ticks := ticks stored_file + 2\<rparr>)"
    by (rule read_records_clean_eq) (simp_all add: stored_file_def)
  also have "bucket_at (bytes stored_file) (nat 288) = [(tag_a, 1000)]"
    by (simp add: bucket_stored)
  also have "nat 288 + length (take (RECORD_LEN * 2) (drop (nat 288) (bytes stored_file))) = 304"
    by (simp add: stored_file_def RECORD_LEN_def TAG_LEN_def marshal_samples tag_lengths
        length_store_32_be)
  also have "ticks stored_file + 2 = 2"
    by (simp add: stored_file_def)
  finally have rd: "read_records stored_file (bucket_offset ref_env tag_a (replicate 16 1) (16, 1023))
     = (Inr [(tag_a, 1000)], stored_file\<lparr>pos := 304, ticks := 2\<rparr>)"
    by (simp only: bucket_offset_samples)
  have m: "(tag_a, 1000) \<in> set [(tag_a, 1000 :: u32)]" and t: "tag_a = take TAG_LEN tag_a"
    by (simp_all add: tag_lengths TAG_LEN_def)
  from duplicate_stops [OF next_table_ref rd m t, of 5000 300 "- 1"] next_table_ref rd m t
  show ?thesis by simp
qed

lemma write_record_clean_eq:
  assumes "fate w = (\<lambda>_. Completes)" and "0 \<le> off" and "TAG_LEN \<le> length tag"
  shows "write_record w off tag ts =
           (Inr (), w\<lparr>bytes := overwrite (bytes w) (nat off) (marshal tag ts),
                      pos := nat off + RECORD_LEN, ticks := ticks w + 2\<rparr>)"
  using assms length_marshal [of tag ts]
  by (simp add: write_record_def lseek_set_def sys_write_def tick_def)

text \<open>
  C7.  Once the slot offset is set it is never replaced, and the slot that is set is
  the eviction candidate of the earliest level that offers one.  Three facts about a
  successful run of the loop.  Started with the offset set, it writes the record at
  exactly that offset.  The offset that the selection of a level yields, when it
  yields one, is where the run writes, however many larger levels are probed after
  it.  Started with the offset unset on a level whose bucket read gave \<open>recs\<close>: if the
  first slot is absent (nothing was read) or its record has expired, the record is
  written over the first slot of that bucket; otherwise, if the second slot is absent
  (one record was read) or its record has expired, the record is written over the
  second slot of that bucket; otherwise the level offers no candidate, and the run
  is the run of the next level, entered with the offset still unset.
\<close>

theorem avail_kept:
  "(store_loop x tag now skew tbl avail_offset seed w = Some (Inr (), w') \<and> 0 \<le> avail_offset
      \<longrightarrow> bytes w' = overwrite (bytes w) (nat avail_offset) (marshal tag now)) \<and>
   (next_table x tbl = Inr tbl' \<and>
    read_records w (bucket_offset x tag seed tbl') = (Inr recs, w1) \<and>
    0 \<le> select_avail x now skew avail_offset (bucket_offset x tag seed tbl') recs \<and>
    store_loop x tag now skew tbl avail_offset seed w = Some (Inr (), w')
      \<longrightarrow> bytes w' =
            overwrite (bytes w)
              (nat (select_avail x now skew avail_offset (bucket_offset x tag seed tbl') recs))
              (marshal tag now)) \<and>
   (table_ok x tbl \<and> next_table x tbl = Inr tbl' \<and>
    read_records w (bucket_offset x tag seed tbl') = (Inr recs, w1) \<and>
    store_loop x tag now skew tbl (- 1) seed w = Some (Inr (), w')
      \<longrightarrow> (if length recs = 0 \<or> ts_after x now (ts_incr x (snd (recs ! 0)) skew)
           then bytes w' =
                  overwrite (bytes w) (nat (bucket_offset x tag seed tbl')) (marshal tag now)
           else if length recs = 1 \<or> ts_after x now (ts_incr x (snd (recs ! 1)) skew)
           then bytes w' =
                  overwrite (bytes w) (nat (bucket_offset x tag seed tbl') + RECORD_LEN)
                    (marshal tag now)
           else store_loop x tag now skew tbl' (- 1) (seed[0 := seed ! 0 + 1]) w1
                  = Some (Inr (), w')))"
proof (intro conjI impI)
  assume "store_loop x tag now skew tbl avail_offset seed w = Some (Inr (), w') \<and> 0 \<le> avail_offset"
  then show "bytes w' = overwrite (bytes w) (nat avail_offset) (marshal tag now)"
    using store_loop_avail [of x tag now skew tbl avail_offset seed w "(Inr (), w')"] by simp
next
  let ?ro = "bucket_offset x tag seed tbl'"
  let ?a = "select_avail x now skew avail_offset ?ro recs"
  assume h: "next_table x tbl = Inr tbl' \<and> read_records w ?ro = (Inr recs, w1) \<and> 0 \<le> ?a \<and>
    store_loop x tag now skew tbl avail_offset seed w = Some (Inr (), w')"
  then have nt: "next_table x tbl = Inr tbl'" and rd: "read_records w ?ro = (Inr recs, w1)"
    and a0: "0 \<le> ?a"
    and run: "store_loop x tag now skew tbl avail_offset seed w = Some (Inr (), w')"
    by simp_all
  note same = read_records_facts [OF rd]
  from run nt rd have body:
    "(if is_repeat tag recs then Some (Inl KRB5KRB_AP_ERR_REPEAT, w1)
      else if stop_here recs then Some (write_record w1 ?a tag now)
      else store_loop x tag now skew tbl' ?a (seed[0 := seed ! 0 + 1]) w1) = Some (Inr (), w')"
    by (subst (asm) store_loop.simps) (auto simp: Let_def split: if_splits)
  show "bytes w' = overwrite (bytes w) (nat ?a) (marshal tag now)"
  proof (cases "stop_here recs")
    case True
    with body have "write_record w1 ?a tag now = (Inr (), w')"
      by (simp split: if_splits)
    from write_record_ok [OF this] same show ?thesis by simp
  next
    case False
    with body have "store_loop x tag now skew tbl' ?a (seed[0 := seed ! 0 + 1]) w1
                      = Some (Inr (), w')"
      by (simp split: if_splits)
    from store_loop_avail [OF this a0] same show ?thesis by simp
  qed
next
  let ?ro = "bucket_offset x tag seed tbl'"
  let ?a = "select_avail x now skew (- 1) ?ro recs"
  let ?first = "length recs = 0 \<or> ts_after x now (ts_incr x (snd (recs ! 0)) skew)"
  let ?second = "length recs = 1 \<or> ts_after x now (ts_incr x (snd (recs ! 1)) skew)"
  assume h: "table_ok x tbl \<and> next_table x tbl = Inr tbl' \<and>
    read_records w ?ro = (Inr recs, w1) \<and>
    store_loop x tag now skew tbl (- 1) seed w = Some (Inr (), w')"
  then have tok: "table_ok x tbl" and nt: "next_table x tbl = Inr tbl'"
    and rd: "read_records w ?ro = (Inr recs, w1)"
    and run: "store_loop x tag now skew tbl (- 1) seed w = Some (Inr (), w')"
    by simp_all
  note same = read_records_facts [OF rd]
  from next_table_ok [OF tok nt] have "slot_offset x ?ro"
    by (simp add: bucket_offset_slot table_ok_def)
  then have ro0: "0 \<le> ?ro" by (rule slot_offset_nonneg)
  from run nt rd have body:
    "(if is_repeat tag recs then Some (Inl KRB5KRB_AP_ERR_REPEAT, w1)
      else if stop_here recs then Some (write_record w1 ?a tag now)
      else store_loop x tag now skew tbl' ?a (seed[0 := seed ! 0 + 1]) w1) = Some (Inr (), w')"
    by (subst (asm) store_loop.simps) (auto simp: Let_def split: if_splits)
  have written: "bytes w' = overwrite (bytes w) (nat ?a) (marshal tag now)" if "0 \<le> ?a"
  proof (cases "stop_here recs")
    case True
    with body have "write_record w1 ?a tag now = (Inr (), w')"
      by (simp split: if_splits)
    from write_record_ok [OF this] same show ?thesis by simp
  next
    case False
    with body have "store_loop x tag now skew tbl' ?a (seed[0 := seed ! 0 + 1]) w1
                      = Some (Inr (), w')"
      by (simp split: if_splits)
    from store_loop_avail [OF this that] same show ?thesis by simp
  qed
  show "if ?first
        then bytes w' = overwrite (bytes w) (nat ?ro) (marshal tag now)
        else if ?second
        then bytes w' = overwrite (bytes w) (nat ?ro + RECORD_LEN) (marshal tag now)
        else store_loop x tag now skew tbl' (- 1) (seed[0 := seed ! 0 + 1]) w1
               = Some (Inr (), w')"
  proof (cases ?first)
    case True
    then have "?a = ?ro" by (simp add: select_avail_def)
    with written ro0 True show ?thesis by simp
  next
    case nofirst: False
    show ?thesis
    proof (cases ?second)
      case True
      with nofirst have a: "?a = ?ro + int RECORD_LEN" by (simp add: select_avail_def)
      with ro0 have "nat ?a = nat ?ro + RECORD_LEN" by simp
      with written a ro0 nofirst True show ?thesis by simp
    next
      case False
      with nofirst have a: "?a = - 1" by (simp add: select_avail_def)
      have "\<not> stop_here recs"
      proof
        assume "stop_here recs"
        with body a have "write_record w1 (- 1) tag now = (Inr (), w')"
          by (simp split: if_splits)
        from write_record_ok [OF this] show False by simp
      qed
      with body a have "store_loop x tag now skew tbl' (- 1) (seed[0 := seed ! 0 + 1]) w1
                          = Some (Inr (), w')"
        by (simp split: if_splits)
      with nofirst False show ?thesis by simp
    qed
  qed
qed

lemma file_simps:
  "fate stored_file = (\<lambda>_. Completes)" "fate full_bucket_file = (\<lambda>_. Completes)"
  "fate hole_file = (\<lambda>_. Completes)"
  "pos stored_file = 0" "pos full_bucket_file = 0" "pos hole_file = 0"
  "ticks stored_file = 0" "ticks full_bucket_file = 0" "ticks hole_file = 0"
  "length (bytes full_bucket_file) = 320" "length (bytes hole_file) = 336"
  "length (bytes stored_file) = 304"
  by (simp_all add: stored_file_def full_bucket_file_def hole_file_def marshal_samples
      tag_lengths length_store_32_be)

lemma next_table_ref_second: "next_table ref_env (16, 1023) = Inr (16384, 2048)"
  by (simp add: next_table_def ref_env_simps FIRST_TABLE_RECORDS_def MAX_SIZE_def
      RECORD_LEN_def TAG_LEN_def)

lemma seed_bump: "(replicate 16 (1 :: u8))[0 := 2] = 2 # replicate 15 1"
  by (simp add: eval_nat_numeral)

lemma bucket_offset_second:
  "bucket_offset ref_env tag_a (2 # replicate 15 1) (16384, 2048) = 16672"
  by (simp add: bucket_offset_def ref_env_simps sum_hash_def tag_a_def TAG_LEN_def
      RECORD_LEN_def sum_list_replicate)

lemma full_bucket_level0:
  "read_records full_bucket_file 288
     = (Inr [(tag_b, 500), (tag_c, 1900)], full_bucket_file\<lparr>pos := 320, ticks := 2\<rparr>)"
proof -
  have "read_records full_bucket_file 288
     = (Inr (bucket_at (bytes full_bucket_file) (nat 288)),
         full_bucket_file\<lparr>pos := nat 288 + length (take (RECORD_LEN * 2)
              (drop (nat 288) (bytes full_bucket_file))),
            ticks := ticks full_bucket_file + 2\<rparr>)"
    by (rule read_records_clean_eq) (simp_all add: file_simps)
  also have "bucket_at (bytes full_bucket_file) (nat 288) = [(tag_b, 500), (tag_c, 1900)]"
    by (simp add: bucket_full)
  also have "nat 288 + length (take (RECORD_LEN * 2) (drop (nat 288) (bytes full_bucket_file)))
               = 320"
    by (simp add: file_simps RECORD_LEN_def TAG_LEN_def)
  also have "ticks full_bucket_file + 2 = 2"
    by (simp add: file_simps)
  finally show ?thesis .
qed

lemma full_bucket_level1:
  "read_records (full_bucket_file\<lparr>pos := 320, ticks := 2\<rparr>) 16672
     = (Inr [], full_bucket_file\<lparr>pos := 16672, ticks := 4\<rparr>)"
proof -
  let ?w = "full_bucket_file\<lparr>pos := 320, ticks := 2\<rparr>"
  have "read_records ?w 16672
     = (Inr (bucket_at (bytes ?w) (nat 16672)),
         ?w\<lparr>pos := nat 16672 + length (take (RECORD_LEN * 2) (drop (nat 16672) (bytes ?w))),
            ticks := ticks ?w + 2\<rparr>)"
    by (rule read_records_clean_eq) (simp_all add: file_simps)
  also have "bucket_at (bytes ?w) (nat 16672) = []"
    by (rule bucket_at_beyond) (simp add: file_simps)
  also have "nat 16672 + length (take (RECORD_LEN * 2) (drop (nat 16672) (bytes ?w))) = 16672"
    by (simp add: file_simps)
  finally show ?thesis by simp
qed

lemma full_bucket_write:
  "write_record (full_bucket_file\<lparr>pos := 16672, ticks := 4\<rparr>) 288 tag_a 1000
     = (Inr (),
        full_bucket_file\<lparr>bytes := replicate 16 1 @ replicate 272 0 @ marshal tag_a 1000
                                     @ marshal tag_c 1900,
                          pos := 304, ticks := 6\<rparr>)"
proof -
  let ?w = "full_bucket_file\<lparr>pos := 16672, ticks := 4\<rparr>"
  have "write_record ?w 288 tag_a 1000
     = (Inr (), ?w\<lparr>bytes := overwrite (bytes ?w) (nat 288) (marshal tag_a 1000),
                     pos := nat 288 + RECORD_LEN, ticks := ticks ?w + 2\<rparr>)"
    by (rule write_record_clean_eq) (simp_all add: file_simps tag_lengths TAG_LEN_def)
  also have "overwrite (bytes ?w) (nat 288) (marshal tag_a 1000)
               = replicate 16 1 @ replicate 272 0 @ marshal tag_a 1000 @ marshal tag_c 1900"
    by (simp add: overwrite_def full_bucket_file_def marshal_samples tag_lengths
        length_store_32_be)
  finally show ?thesis by (simp add: RECORD_LEN_def TAG_LEN_def)
qed

lemma full_bucket_tests:
  "\<not> is_repeat tag_a [(tag_b, 500), (tag_c, 1900)]"
  "select_avail ref_env 1000 300 (- 1) 288 [(tag_b, 500), (tag_c, 1900)] = 288"
  "\<not> stop_here [(tag_b, 500), (tag_c, 1900)]"
  "\<not> is_repeat tag_a []" "select_avail ref_env 1000 300 288 16672 [] = 288" "stop_here []"
  by (simp_all add: is_repeat_def select_avail_def stop_here_def tag_a_def tag_b_def tag_c_def
      TAG_LEN_def ref_env_simps ts_after_spec_def ts_incr_spec_def)

lemma full_bucket_later:
  "store_loop ref_env tag_a 1000 300 (16, 1023) 288 (2 # replicate 15 1)
     (full_bucket_file\<lparr>pos := 320, ticks := 2\<rparr>)
     = Some (Inr (),
        full_bucket_file\<lparr>bytes := replicate 16 1 @ replicate 272 0 @ marshal tag_a 1000
                                     @ marshal tag_c 1900,
                          pos := 304, ticks := 6\<rparr>)"
  by (subst store_loop.simps)
    (simp add: next_table_ref_second bucket_offset_second full_bucket_level1 full_bucket_tests
      full_bucket_write)

lemma full_bucket_run:
  "store_loop ref_env tag_a 1000 300 (- 1, 0) (- 1) (replicate 16 1) full_bucket_file
     = Some (Inr (),
        full_bucket_file\<lparr>bytes := replicate 16 1 @ replicate 272 0 @ marshal tag_a 1000
                                     @ marshal tag_c 1900,
                          pos := 304, ticks := 6\<rparr>)"
  by (subst store_loop.simps)
    (simp add: next_table_ref bucket_offset_samples full_bucket_level0 full_bucket_tests
      seed_bump full_bucket_later)

lemma two_level_run:
  assumes clean: "fate w = (\<lambda>_. Completes)" and tk: "ticks w = 0" and len: "length (bytes w) = 320"
    and b0: "bucket_at (bytes w) 288 = recs"
    and nrep: "\<not> is_repeat tag_a recs" and nstop: "\<not> stop_here recs"
    and sel: "select_avail ref_env now skew (- 1) 288 recs = a"
    and a': "a' = (if a = - 1 then 16672 else a)" "0 \<le> a'"
  shows "read_records w 288 = (Inr recs, w\<lparr>pos := 320, ticks := 2\<rparr>)"
    and "read_records (w\<lparr>pos := 320, ticks := 2\<rparr>) 16672
           = (Inr [], w\<lparr>pos := 16672, ticks := 4\<rparr>)"
    and "store_loop ref_env tag_a now skew (16, 1023) a (2 # replicate 15 1)
           (w\<lparr>pos := 320, ticks := 2\<rparr>)
           = Some (Inr (), w\<lparr>bytes := overwrite (bytes w) (nat a') (marshal tag_a now),
                              pos := nat a' + 16, ticks := 6\<rparr>)"
    and "store_loop ref_env tag_a now skew (- 1, 0) (- 1) (replicate 16 1) w
           = Some (Inr (), w\<lparr>bytes := overwrite (bytes w) (nat a') (marshal tag_a now),
                              pos := nat a' + 16, ticks := 6\<rparr>)"
proof -
  let ?w1 = "w\<lparr>pos := 320, ticks := 2\<rparr>"
  let ?w2 = "w\<lparr>pos := 16672, ticks := 4\<rparr>"
  have "read_records w 288
     = (Inr (bucket_at (bytes w) (nat 288)),
         w\<lparr>pos := nat 288 + length (take (RECORD_LEN * 2) (drop (nat 288) (bytes w))),
           ticks := ticks w + 2\<rparr>)"
    by (rule read_records_clean_eq) (simp_all add: clean)
  also have "bucket_at (bytes w) (nat 288) = recs"
    by (simp add: b0)
  also have "nat 288 + length (take (RECORD_LEN * 2) (drop (nat 288) (bytes w))) = 320"
    by (simp add: len RECORD_LEN_def TAG_LEN_def)
  also have "ticks w + 2 = 2"
    by (simp add: tk)
  finally show rd0: "read_records w 288 = (Inr recs, ?w1)" .
  have "read_records ?w1 16672
     = (Inr (bucket_at (bytes ?w1) (nat 16672)),
         ?w1\<lparr>pos := nat 16672 + length (take (RECORD_LEN * 2) (drop (nat 16672) (bytes ?w1))),
             ticks := ticks ?w1 + 2\<rparr>)"
    by (rule read_records_clean_eq) (simp_all add: clean)
  also have "bucket_at (bytes ?w1) (nat 16672) = []"
    by (rule bucket_at_beyond) (simp add: len)
  also have "nat 16672 + length (take (RECORD_LEN * 2) (drop (nat 16672) (bytes ?w1))) = 16672"
    by (simp add: len)
  finally show rd1: "read_records ?w1 16672 = (Inr [], ?w2)" by simp
  have "write_record ?w2 a' tag_a now
     = (Inr (), ?w2\<lparr>bytes := overwrite (bytes ?w2) (nat a') (marshal tag_a now),
                     pos := nat a' + RECORD_LEN, ticks := ticks ?w2 + 2\<rparr>)"
    by (rule write_record_clean_eq) (simp_all add: clean a'(2) tag_lengths TAG_LEN_def)
  then have wr: "write_record ?w2 a' tag_a now
     = (Inr (), w\<lparr>bytes := overwrite (bytes w) (nat a') (marshal tag_a now),
                    pos := nat a' + 16, ticks := 6\<rparr>)"
    by (simp add: RECORD_LEN_def TAG_LEN_def)
  have tests: "\<not> is_repeat tag_a []" "stop_here []"
    "select_avail ref_env now skew a 16672 [] = a'"
    by (simp_all add: is_repeat_def stop_here_def select_avail_def a'(1))
  show later: "store_loop ref_env tag_a now skew (16, 1023) a (2 # replicate 15 1) ?w1
           = Some (Inr (), w\<lparr>bytes := overwrite (bytes w) (nat a') (marshal tag_a now),
                              pos := nat a' + 16, ticks := 6\<rparr>)"
    by (subst store_loop.simps)
      (simp add: next_table_ref_second bucket_offset_second rd1 tests wr)
  show "store_loop ref_env tag_a now skew (- 1, 0) (- 1) (replicate 16 1) w
           = Some (Inr (), w\<lparr>bytes := overwrite (bytes w) (nat a') (marshal tag_a now),
                              pos := nat a' + 16, ticks := 6\<rparr>)"
    by (subst store_loop.simps)
      (simp add: next_table_ref bucket_offset_samples rd0 nrep nstop sel seed_bump later)
qed

lemma bucket_samples:
  "bucket_at (bytes second_slot_file) 288 = [(tag_b, 900), (tag_c, 500)]"
  "bucket_at (bytes live_bucket_file) 288 = [(tag_b, 900), (tag_c, 1900)]"
  using parse_marshal [of tag_b 900 "marshal tag_c 500"] parse_marshal [of tag_c 500 "[]"]
    parse_marshal [of tag_b 900 "marshal tag_c 1900"] parse_marshal [of tag_c 1900 "[]"]
    length_marshal [of tag_b 900] length_marshal [of tag_c 500] length_marshal [of tag_c 1900]
  by (simp_all add: second_slot_file_def live_bucket_file_def bucket_at_def Let_def tag_lengths
      TAG_LEN_def RECORD_LEN_def)

lemma sample_file_simps:
  "fate second_slot_file = (\<lambda>_. Completes)" "fate live_bucket_file = (\<lambda>_. Completes)"
  "ticks second_slot_file = 0" "ticks live_bucket_file = 0"
  "length (bytes second_slot_file) = 320" "length (bytes live_bucket_file) = 320"
  by (simp_all add: second_slot_file_def live_bucket_file_def marshal_samples
      tag_lengths length_store_32_be)

lemma sample_tests:
  "\<not> is_repeat tag_a [(tag_b, 900), (tag_c, 500)]"
  "\<not> stop_here [(tag_b, 900), (tag_c, 500)]"
  "select_avail ref_env 1000 300 (- 1) 288 [(tag_b, 900), (tag_c, 500)] = 304"
  "\<not> is_repeat tag_a [(tag_b, 900), (tag_c, 1900)]"
  "\<not> stop_here [(tag_b, 900), (tag_c, 1900)]"
  "select_avail ref_env 1000 300 (- 1) 288 [(tag_b, 900), (tag_c, 1900)] = - 1"
  by (simp_all add: is_repeat_def select_avail_def stop_here_def tag_a_def tag_b_def tag_c_def
      TAG_LEN_def RECORD_LEN_def ref_env_simps ts_after_spec_def ts_incr_spec_def)

lemma expiry_samples:
  "\<not> ts_after ref_env 1000 (ts_incr ref_env 900 300)"
  "ts_after ref_env 1000 (ts_incr ref_env 500 300)"
  "\<not> ts_after ref_env 1000 (ts_incr ref_env 1900 300)"
  by (simp_all add: ref_env_simps ts_after_spec_def ts_incr_spec_def)

lemma overwrite_samples:
  "overwrite (bytes second_slot_file) 304 (marshal tag_a 1000)
     = replicate 16 1 @ replicate 272 0 @ marshal tag_b 900 @ marshal tag_a 1000"
  "overwrite (bytes live_bucket_file) 16672 (marshal tag_a 1000)
     = bytes live_bucket_file @ replicate 16352 0 @ marshal tag_a 1000"
  by (simp_all add: overwrite_def second_slot_file_def live_bucket_file_def marshal_samples
      tag_lengths length_store_32_be)


lemma table_ok_second: "table_ok ref_env (16, 1023)"
  by (simp add: table_ok_def slot_offset_def ref_env_simps)

lemma second_slot_run:
  "read_records second_slot_file 288
     = (Inr [(tag_b, 900), (tag_c, 500)], second_slot_file\<lparr>pos := 320, ticks := 2\<rparr>)"
  "store_loop ref_env tag_a 1000 300 (- 1, 0) (- 1) (replicate 16 1) second_slot_file
     = Some (Inr (),
        second_slot_file\<lparr>bytes := replicate 16 1 @ replicate 272 0 @ marshal tag_b 900
                                     @ marshal tag_a 1000,
                          pos := 320, ticks := 6\<rparr>)"
  using two_level_run(1,4) [OF sample_file_simps(1) sample_file_simps(3) sample_file_simps(5)
      bucket_samples(1) sample_tests(1) sample_tests(2) sample_tests(3), where a' = 304]
  by (simp_all add: overwrite_samples)

lemma live_bucket_run:
  "read_records live_bucket_file 288
     = (Inr [(tag_b, 900), (tag_c, 1900)], live_bucket_file\<lparr>pos := 320, ticks := 2\<rparr>)"
  "read_records (live_bucket_file\<lparr>pos := 320, ticks := 2\<rparr>) 16672
     = (Inr [], live_bucket_file\<lparr>pos := 16672, ticks := 4\<rparr>)"
  "store_loop ref_env tag_a 1000 300 (16, 1023) (- 1) (2 # replicate 15 1)
     (live_bucket_file\<lparr>pos := 320, ticks := 2\<rparr>)
     = Some (Inr (),
        live_bucket_file\<lparr>bytes := bytes live_bucket_file @ replicate 16352 0
                                     @ marshal tag_a 1000,
                          pos := 16688, ticks := 6\<rparr>)"
  "store_loop ref_env tag_a 1000 300 (- 1, 0) (- 1) (replicate 16 1) live_bucket_file
     = Some (Inr (),
        live_bucket_file\<lparr>bytes := bytes live_bucket_file @ replicate 16352 0
                                     @ marshal tag_a 1000,
                          pos := 16688, ticks := 6\<rparr>)"
  using two_level_run [OF sample_file_simps(2) sample_file_simps(4) sample_file_simps(6)
      bucket_samples(2) sample_tests(4) sample_tests(5) sample_tests(6), where a' = 16672]
  by (simp_all add: overwrite_samples)

theorem avail_kept_witness:
  "table_ok ref_env (- 1, 0) \<and> next_table ref_env (- 1, 0) = Inr (16, 1023) \<and>
   bucket_offset ref_env tag_a (replicate 16 1) (16, 1023) = 288 \<and>
   table_ok ref_env (16, 1023) \<and> next_table ref_env (16, 1023) = Inr (16384, 2048) \<and>
   bucket_offset ref_env tag_a (2 # replicate 15 1) (16384, 2048) = 16672 \<and>
   (replicate 16 1)[0 := replicate 16 1 ! 0 + 1] = 2 # replicate 15 (1 :: u8) \<and>
   read_records full_bucket_file 288
     = (Inr [(tag_b, 500), (tag_c, 1900)], full_bucket_file\<lparr>pos := 320, ticks := 2\<rparr>) \<and>
   ts_after ref_env 1000 (ts_incr ref_env 500 300) \<and>
   select_avail ref_env 1000 300 (- 1) 288 [(tag_b, 500), (tag_c, 1900)] = 288 \<and>
   store_loop ref_env tag_a 1000 300 (- 1, 0) (- 1) (replicate 16 1) full_bucket_file
     = Some (Inr (),
        full_bucket_file\<lparr>bytes := replicate 16 1 @ replicate 272 0 @ marshal tag_a 1000
                                     @ marshal tag_c 1900,
                          pos := 304, ticks := 6\<rparr>) \<and>
   store_loop ref_env tag_a 1000 300 (16, 1023) 288 (2 # replicate 15 1)
     (full_bucket_file\<lparr>pos := 320, ticks := 2\<rparr>)
     = Some (Inr (),
        full_bucket_file\<lparr>bytes := replicate 16 1 @ replicate 272 0 @ marshal tag_a 1000
                                     @ marshal tag_c 1900,
                          pos := 304, ticks := 6\<rparr>) \<and>
   replicate 16 1 @ replicate 272 0 @ marshal tag_a 1000 @ marshal tag_c 1900
     = overwrite (bytes full_bucket_file) 288 (marshal tag_a 1000) \<and>
   read_records second_slot_file 288
     = (Inr [(tag_b, 900), (tag_c, 500)], second_slot_file\<lparr>pos := 320, ticks := 2\<rparr>) \<and>
   \<not> ts_after ref_env 1000 (ts_incr ref_env 900 300) \<and>
   store_loop ref_env tag_a 1000 300 (- 1, 0) (- 1) (replicate 16 1) second_slot_file
     = Some (Inr (),
        second_slot_file\<lparr>bytes := replicate 16 1 @ replicate 272 0 @ marshal tag_b 900
                                     @ marshal tag_a 1000,
                          pos := 320, ticks := 6\<rparr>) \<and>
   replicate 16 1 @ replicate 272 0 @ marshal tag_b 900 @ marshal tag_a 1000
     = overwrite (bytes second_slot_file) (288 + RECORD_LEN) (marshal tag_a 1000) \<and>
   read_records live_bucket_file 288
     = (Inr [(tag_b, 900), (tag_c, 1900)], live_bucket_file\<lparr>pos := 320, ticks := 2\<rparr>) \<and>
   \<not> ts_after ref_env 1000 (ts_incr ref_env 1900 300) \<and>
   store_loop ref_env tag_a 1000 300 (- 1, 0) (- 1) (replicate 16 1) live_bucket_file
     = Some (Inr (),
        live_bucket_file\<lparr>bytes := bytes live_bucket_file @ replicate 16352 0
                                     @ marshal tag_a 1000,
                          pos := 16688, ticks := 6\<rparr>) \<and>
   store_loop ref_env tag_a 1000 300 (16, 1023) (- 1) (2 # replicate 15 1)
     (live_bucket_file\<lparr>pos := 320, ticks := 2\<rparr>)
     = Some (Inr (),
        live_bucket_file\<lparr>bytes := bytes live_bucket_file @ replicate 16352 0
                                     @ marshal tag_a 1000,
                          pos := 16688, ticks := 6\<rparr>) \<and>
   read_records (live_bucket_file\<lparr>pos := 320, ticks := 2\<rparr>) 16672
     = (Inr [], live_bucket_file\<lparr>pos := 16672, ticks := 4\<rparr>) \<and>
   bytes live_bucket_file @ replicate 16352 0 @ marshal tag_a 1000
     = overwrite (bytes live_bucket_file) 16672 (marshal tag_a 1000)"
proof -
  let ?F = "full_bucket_file\<lparr>bytes := replicate 16 1 @ replicate 272 0 @ marshal tag_a 1000
                                     @ marshal tag_c 1900,
                          pos := 304, ticks := 6\<rparr>"
  let ?S = "second_slot_file\<lparr>bytes := replicate 16 1 @ replicate 272 0 @ marshal tag_b 900
                                     @ marshal tag_a 1000,
                          pos := 320, ticks := 6\<rparr>"
  let ?L = "live_bucket_file\<lparr>bytes := bytes live_bucket_file @ replicate 16352 0
                                     @ marshal tag_a 1000,
                          pos := 16688, ticks := 6\<rparr>"
  note tables = table_ok_start [of ref_env] next_table_ref bucket_offset_samples
    table_ok_second next_table_ref_second bucket_offset_second seed_bump
  note samples = full_bucket_level0 full_bucket_run full_bucket_later full_bucket_tests(2)
    second_slot_run live_bucket_run expiry_samples
  have kept: "bytes ?F = overwrite (bytes (full_bucket_file\<lparr>pos := 320, ticks := 2\<rparr>)) (nat 288)
                (marshal tag_a 1000)"
    using avail_kept [of ref_env tag_a 1000 300 "(16, 1023)" 288 "2 # replicate 15 1"
        "full_bucket_file\<lparr>pos := 320, ticks := 2\<rparr>" ?F]
    by (simp add: full_bucket_later)
  have selected: "bytes ?F = overwrite (bytes full_bucket_file) 288 (marshal tag_a 1000)"
    using avail_kept [of ref_env tag_a 1000 300 "(- 1, 0)" "- 1" "replicate 16 1"
        full_bucket_file ?F "(16, 1023)" "[(tag_b, 500), (tag_c, 1900)]"
        "full_bucket_file\<lparr>pos := 320, ticks := 2\<rparr>"]
    by (simp add: tables samples)
  have second: "bytes ?S = overwrite (bytes second_slot_file) (288 + RECORD_LEN)
                  (marshal tag_a 1000)"
    using avail_kept [of ref_env tag_a 1000 300 "(- 1, 0)" "- 1" "replicate 16 1"
        second_slot_file ?S "(16, 1023)" "[(tag_b, 900), (tag_c, 500)]"
        "second_slot_file\<lparr>pos := 320, ticks := 2\<rparr>"]
    by (simp add: tables samples)
  have passed: "store_loop ref_env tag_a 1000 300 (16, 1023) (- 1) (2 # replicate 15 1)
                  (live_bucket_file\<lparr>pos := 320, ticks := 2\<rparr>) = Some (Inr (), ?L)"
    using avail_kept [of ref_env tag_a 1000 300 "(- 1, 0)" "- 1" "replicate 16 1"
        live_bucket_file ?L "(16, 1023)" "[(tag_b, 900), (tag_c, 1900)]"
        "live_bucket_file\<lparr>pos := 320, ticks := 2\<rparr>"]
    by (simp add: tables samples)
  have later: "bytes ?L = overwrite (bytes live_bucket_file) 16672 (marshal tag_a 1000)"
    using avail_kept [of ref_env tag_a 1000 300 "(16, 1023)" "- 1" "2 # replicate 15 1"
        "live_bucket_file\<lparr>pos := 320, ticks := 2\<rparr>" ?L "(16384, 2048)" "[]"
        "live_bucket_file\<lparr>pos := 16672, ticks := 4\<rparr>"] passed
    by (simp add: tables samples)
  from kept selected second passed later show ?thesis
    by (simp add: tables samples)
qed

lemma hash_seed_present_eq:
  assumes "pos w = 0" and "fate w = (\<lambda>_. Completes)"
    and "K5_HASH_SEED_LEN x \<le> length (bytes w)"
  shows "hash_seed x ctx w =
           (Inr (take (K5_HASH_SEED_LEN x) (bytes w)),
            w\<lparr>pos := K5_HASH_SEED_LEN x, ticks := ticks w + 1\<rparr>)"
  using assms
  by (simp add: hash_seed_def sys_read_def tick_def)

lemma write_record_unset:
  assumes "fate w = (\<lambda>_. Completes)"
  shows "write_record w (- 1) tag ts = (Inl EINVAL, w\<lparr>ticks := ticks w + 1\<rparr>)"
  using assms by (simp add: write_record_def lseek_set_def tick_def)

lemma hole_level0:
  "read_records (hole_file\<lparr>pos := 16, ticks := 1\<rparr>) 288
     = (Inr [(replicate 12 0, 0), (replicate 12 0, 0)], hole_file\<lparr>pos := 320, ticks := 3\<rparr>)"
proof -
  let ?w = "hole_file\<lparr>pos := 16, ticks := 1\<rparr>"
  have "read_records ?w 288
     = (Inr (bucket_at (bytes ?w) (nat 288)),
         ?w\<lparr>pos := nat 288 + length (take (RECORD_LEN * 2) (drop (nat 288) (bytes ?w))),
            ticks := ticks ?w + 2\<rparr>)"
    by (rule read_records_clean_eq) (simp_all add: file_simps)
  also have "bucket_at (bytes ?w) (nat 288) = [(replicate 12 0, 0), (replicate 12 0, 0)]"
    by (simp add: bucket_hole)
  also have "nat 288 + length (take (RECORD_LEN * 2) (drop (nat 288) (bytes ?w))) = 320"
    by (simp add: file_simps RECORD_LEN_def TAG_LEN_def)
  finally show ?thesis by simp
qed

lemma hole_tests:
  "\<not> is_repeat tag_a [(replicate 12 0, 0), (replicate 12 0, 0)]"
  "select_avail ref_env 100 300 (- 1) 288 [(replicate 12 0, 0), (replicate 12 0, 0)] = - 1"
  "select_avail ref_env 1000 300 (- 1) 288 [(replicate 12 0, 0), (replicate 12 0, 0)] = 288"
  "stop_here [(replicate 12 0, 0), (replicate 12 0, 0)]"
     apply (simp add: is_repeat_def tag_a_def TAG_LEN_def eval_nat_numeral)
    apply (simp add: select_avail_def ref_env_simps ts_after_spec_def ts_incr_spec_def)
   apply (simp add: select_avail_def ref_env_simps ts_after_spec_def ts_incr_spec_def)
  apply (simp add: stop_here_def)
  done

text \<open>
  C3 says that whenever the stop condition of the loop holds, the slot offset has
  been set, so that \<^verbatim>\<open>write_record\<close> is never called with the offset unset,
  for every file, tag, time and skew.  The code does not ensure it.  The file
  \<open>hole_file\<close> holds a seed and, at the bucket of \<open>tag_a\<close>, two slots that were
  never written (all zero).  At time 100 with skew 300 no slot counts as expired
  (100 is not after 0 + 300), so the selection leaves the offset at \<open>-1\<close>, while
  the stop condition holds because a timestamp is zero: \<^verbatim>\<open>write_record\<close> is
  called with offset \<open>-1\<close> and \<^verbatim>\<open>store\<close> returns the \<^verbatim>\<open>EINVAL\<close> of the seek,
  without recording the tag.
\<close>

theorem write_with_unset_avail:
  "stop_here (bucket_at (bytes hole_file) 288) \<and>
   select_avail ref_env 100 300 (- 1) 288 (bucket_at (bytes hole_file) 288) = - 1 \<and>
   store ref_env ref_context hole_file tag_a 100 300
     = Some (Inl EINVAL, hole_file\<lparr>pos := 320, ticks := 4\<rparr>)"
proof -
  have hs: "hash_seed ref_env ref_context hole_file
              = (Inr (replicate 16 1), hole_file\<lparr>pos := 16, ticks := 1\<rparr>)"
    using hash_seed_present_eq [of hole_file ref_env ref_context]
    by (simp add: file_simps ref_env_simps) (simp add: hole_file_def)
  have wr: "write_record (hole_file\<lparr>pos := 320, ticks := 3\<rparr>) (- 1) tag_a 100
              = (Inl EINVAL, hole_file\<lparr>pos := 320, ticks := 4\<rparr>)"
    using write_record_unset [of "hole_file\<lparr>pos := 320, ticks := 3\<rparr>" tag_a 100]
    by (simp add: file_simps)
  have "store ref_env ref_context hole_file tag_a 100 300
     = Some (Inl EINVAL, hole_file\<lparr>pos := 320, ticks := 4\<rparr>)"
    unfolding store_def hs
    by (subst store_loop.simps)
      (simp add: next_table_ref bucket_offset_samples hole_level0 [simplified] hole_tests wr)
  then show ?thesis
    by (simp add: bucket_hole hole_tests)
qed

text \<open>
  The selection and the stop test agree as soon as a never-written slot counts as
  expired.  For every table state the loop can be in, every tag, seed and incoming
  slot offset: when the stop condition holds at a level and the zero timestamp plus
  skew is before now, the slot offset is set after the selection of this level.
\<close>

lemma stop_has_avail:
  assumes "table_ok x tbl" and "next_table x tbl = Inr tbl'"
    and "stop_here recs" and "ts_after x now (ts_incr x 0 skew)"
  shows "select_avail x now skew avail_offset (bucket_offset x tag seed tbl') recs \<noteq> - 1"
proof -
  from next_table_ok [OF assms(1,2)] have "slot_offset x (bucket_offset x tag seed tbl')"
    by (simp add: bucket_offset_slot table_ok_def)
  then have "0 \<le> bucket_offset x tag seed tbl'"
    by (rule slot_offset_nonneg)
  then have ro: "bucket_offset x tag seed tbl' \<noteq> - 1"
    "bucket_offset x tag seed tbl' + int RECORD_LEN \<noteq> - 1"
    by simp_all
  from assms(3) consider "length recs = 0" | "length recs = 1"
    | "snd (recs ! 0) = 0" | "snd (recs ! 1) = 0"
    unfolding stop_here_def by linarith
  then show ?thesis
  proof cases
    case 1
    with ro show ?thesis by (simp add: select_avail_def)
  next
    case 2
    with ro show ?thesis by (simp add: select_avail_def)
  next
    case 3
    with ro assms(4) show ?thesis by (simp add: select_avail_def)
  next
    case 4
    with ro assms(4) show ?thesis by (simp add: select_avail_def)
  qed
qed

lemma stop_has_avail_example:
  "table_ok ref_env (- 1, 0) \<and> next_table ref_env (- 1, 0) = Inr (16, 1023) \<and>
   stop_here [(replicate 12 0, 0), (replicate 12 0, 0)] \<and>
   ts_after ref_env 1000 (ts_incr ref_env 0 300) \<and>
   select_avail ref_env 1000 300 (- 1) (bucket_offset ref_env tag_a (replicate 16 1) (16, 1023))
     [(replicate 12 0, 0), (replicate 12 0, 0)] \<noteq> - 1"
proof -
  have t: "ts_after ref_env 1000 (ts_incr ref_env 0 300)"
    by (simp add: ref_env_simps ts_after_spec_def ts_incr_spec_def)
  from stop_has_avail [OF table_ok_start next_table_ref hole_tests(4) t]
    table_ok_start next_table_ref hole_tests(4) t
  show ?thesis by blast
qed

subsection \<open>The entry point, the seed and the effect on the file\<close>

text \<open>
  C8.  The entry point returns \<^verbatim>\<open>EINVAL\<close> for an empty tag with the descriptor
  untouched: no operation was made on it, so no lock was requested.  For a
  non-empty tag, once the time is known and the lock is taken, it runs \<^verbatim>\<open>store\<close>
  on a tag of exactly 12 bytes: the first 12 bytes of the caller's tag when that has
  12 bytes or more, the caller's tag padded with zero bytes on the right otherwise;
  the lock is released afterwards and the result of \<^verbatim>\<open>store\<close> is returned.
\<close>

theorem entry_point:
  "k5_rcfile2_store x ctx w [] = Some (Inl EINVAL, w) \<and>
   (data \<noteq> [] \<and> krb5_timeofday ctx = Inr now \<and> krb5_lock_file w = (Inr (), w1) \<longrightarrow>
      (\<exists>tag. length tag = TAG_LEN \<and>
         (TAG_LEN \<le> length data \<longrightarrow> tag = take TAG_LEN data) \<and>
         (length data < TAG_LEN \<longrightarrow> tag = data @ replicate (TAG_LEN - length data) 0) \<and>
         k5_rcfile2_store x ctx w data =
           map_option (\<lambda>(ret, w2). (ret, krb5_unlock_file w2))
             (store x ctx w1 tag now (clockskew ctx))))"
proof (intro conjI impI)
  show "k5_rcfile2_store x ctx w [] = Some (Inl EINVAL, w)"
    by (simp add: k5_rcfile2_store_def)
next
  assume h: "data \<noteq> [] \<and> krb5_timeofday ctx = Inr now \<and> krb5_lock_file w = (Inr (), w1)"
  let ?tag = "if TAG_LEN \<le> length data then take TAG_LEN data
              else data @ replicate (TAG_LEN - length data) 0"
  have "length ?tag = TAG_LEN" by simp
  moreover have "TAG_LEN \<le> length data \<longrightarrow> ?tag = take TAG_LEN data" by simp
  moreover have "length data < TAG_LEN \<longrightarrow> ?tag = data @ replicate (TAG_LEN - length data) 0"
    by simp
  moreover from h have "k5_rcfile2_store x ctx w data =
           map_option (\<lambda>(ret, w2). (ret, krb5_unlock_file w2))
             (store x ctx w1 ?tag now (clockskew ctx))"
    by (cases "store x ctx w1 ?tag now (clockskew ctx)")
      (auto simp: k5_rcfile2_store_def Let_def)
  ultimately show "\<exists>tag. length tag = TAG_LEN \<and>
         (TAG_LEN \<le> length data \<longrightarrow> tag = take TAG_LEN data) \<and>
         (length data < TAG_LEN \<longrightarrow> tag = data @ replicate (TAG_LEN - length data) 0) \<and>
         k5_rcfile2_store x ctx w data =
           map_option (\<lambda>(ret, w2). (ret, krb5_unlock_file w2))
             (store x ctx w1 tag now (clockskew ctx))"
    by blast
qed

theorem entry_point_witness:
  "[65, 66, 67] \<noteq> ([] :: u8 list) \<and> krb5_timeofday ref_context = Inr 1000 \<and>
   krb5_lock_file unlocked_file = (Inr (), unlocked_file\<lparr>held := True, ticks := 1\<rparr>) \<and>
   (\<exists>tag. tag = [65, 66, 67, 0, 0, 0, 0, 0, 0, 0, 0, 0] \<and>
      k5_rcfile2_store ref_env ref_context unlocked_file [65, 66, 67] =
        map_option (\<lambda>(ret, w2). (ret, krb5_unlock_file w2))
          (store ref_env ref_context (unlocked_file\<lparr>held := True, ticks := 1\<rparr>) tag 1000
             (clockskew ref_context)))"
proof -
  have a: "[65, 66, 67] \<noteq> ([] :: u8 list)" by simp
  have b: "krb5_timeofday ref_context = Inr 1000" by (simp add: ref_context_def)
  have c: "krb5_lock_file unlocked_file = (Inr (), unlocked_file\<lparr>held := True, ticks := 1\<rparr>)"
    by (simp add: krb5_lock_file_def unlocked_file_def tick_def)
  from entry_point [of ref_env ref_context unlocked_file "[65, 66, 67]" 1000
      "unlocked_file\<lparr>held := True, ticks := 1\<rparr>"] a b c
  obtain tag where t: "length tag = TAG_LEN"
    "length ([65, 66, 67] :: u8 list) < TAG_LEN \<longrightarrow>
       tag = [65, 66, 67] @ replicate (TAG_LEN - length ([65, 66, 67] :: u8 list)) 0"
    "k5_rcfile2_store ref_env ref_context unlocked_file [65, 66, 67] =
        map_option (\<lambda>(ret, w2). (ret, krb5_unlock_file w2))
          (store ref_env ref_context (unlocked_file\<lparr>held := True, ticks := 1\<rparr>) tag 1000
             (clockskew ref_context))"
    by blast
  from t(2) have "tag = [65, 66, 67, 0, 0, 0, 0, 0, 0, 0, 0, 0]"
    by (simp add: TAG_LEN_def eval_nat_numeral)
  with t(3) a b c show ?thesis by blast
qed

lemma take_overwrite:
  "n \<le> p \<Longrightarrow> n \<le> length xs \<Longrightarrow> take n (overwrite xs p buf) = take n xs"
  by (simp add: overwrite_def)

lemma hash_seed_short:
  assumes "short_seed_read x ctx w st s" and "st < K5_HASH_SEED_LEN x"
  shows "hash_seed x ctx w =
           (Inr s, w\<lparr>bytes := bytes w @ s, pos := st + K5_HASH_SEED_LEN x, ticks := ticks w + 2\<rparr>)"
  using assms
  by (simp add: short_seed_read_def hash_seed_def sys_read_def sys_write_def tick_def
      overwrite_def)

lemma store_keeps_seed_region:
  assumes "store_loop x tag now skew (- 1, 0) (- 1) seed w1 = Some (r, w')"
    and "K5_HASH_SEED_LEN x \<le> length (bytes w1)"
  shows "take (K5_HASH_SEED_LEN x) (bytes w') = take (K5_HASH_SEED_LEN x) (bytes w1)"
proof -
  from store_loop_frame [OF assms(1) table_ok_start]
  have eff: "store_effect x tag now (bytes w1) (r, w')" by simp
  have keep: "take (K5_HASH_SEED_LEN x) (overwrite (bytes w1) (nat off) buf)
                = take (K5_HASH_SEED_LEN x) (bytes w1)" if "slot_offset x off" for off buf
  proof (rule take_overwrite)
    from that show "K5_HASH_SEED_LEN x \<le> nat off"
      unfolding slot_offset_def by linarith
  qed (rule assms(2))
  from eff show ?thesis
    by (cases r) (auto simp: store_effect_def keep)
qed

text \<open>
  C10.  When the file holds \<open>st\<close> bytes, fewer than the seed length, the read of
  the seed returns those \<open>st\<close> bytes and the freshly generated seed is written
  starting at offset \<open>st\<close>, where the read left the descriptor: the file then is the
  old bytes followed by the whole seed, and the insertion hashes with the generated
  seed.  The seed region (the first seed-length bytes) of the file, after the seed is
  written and after the whole call, is the old bytes followed by the first bytes of
  the seed.  That the region equals the seed used in the call, for every such file
  and every generated seed, holds only for \<open>st = 0\<close>.
\<close>

theorem seed_written_after_short_read:
  assumes "st < K5_HASH_SEED_LEN x"
  shows "(\<forall>ctx w s. short_seed_read x ctx w st s \<longrightarrow>
            (\<exists>w1. hash_seed x ctx w = (Inr s, w1) \<and>
               bytes w1 = overwrite (bytes w) st s \<and>
               take (K5_HASH_SEED_LEN x) (bytes w1)
                 = bytes w @ take (K5_HASH_SEED_LEN x - st) s \<and>
               (\<forall>tag now skew.
                  store x ctx w tag now skew = store_loop x tag now skew (- 1, 0) (- 1) s w1) \<and>
               (\<forall>tag now skew r w'. store x ctx w tag now skew = Some (r, w') \<longrightarrow>
                  take (K5_HASH_SEED_LEN x) (bytes w')
                    = bytes w @ take (K5_HASH_SEED_LEN x - st) s))) \<and>
         ((\<forall>ctx w s tag now skew r w'.
             short_seed_read x ctx w st s \<longrightarrow> store x ctx w tag now skew = Some (r, w') \<longrightarrow>
             take (K5_HASH_SEED_LEN x) (bytes w') = s) \<longleftrightarrow> st = 0)"
proof -
  let ?L = "K5_HASH_SEED_LEN x"
  have main: "\<exists>w1. hash_seed x ctx w = (Inr s, w1) \<and>
               bytes w1 = overwrite (bytes w) st s \<and>
               take ?L (bytes w1) = bytes w @ take (?L - st) s \<and>
               (\<forall>tag now skew.
                  store x ctx w tag now skew = store_loop x tag now skew (- 1, 0) (- 1) s w1) \<and>
               (\<forall>tag now skew r w'. store x ctx w tag now skew = Some (r, w') \<longrightarrow>
                  take ?L (bytes w') = bytes w @ take (?L - st) s)"
    if run: "short_seed_read x ctx w st s" for ctx w s
  proof -
    let ?w1 = "w\<lparr>bytes := bytes w @ s, pos := st + ?L, ticks := ticks w + 2\<rparr>"
    from run have len: "length (bytes w) = st" "length s = ?L"
      by (simp_all add: short_seed_read_def)
    have hs: "hash_seed x ctx w = (Inr s, ?w1)"
      by (rule hash_seed_short [OF run assms])
    have ov: "bytes ?w1 = overwrite (bytes w) st s"
      using len by (simp add: overwrite_def)
    have region: "take ?L (bytes ?w1) = bytes w @ take (?L - st) s"
      using len assms by simp
    have st: "store x ctx w tag now skew = store_loop x tag now skew (- 1, 0) (- 1) s ?w1"
      for tag now skew
      by (simp add: store_def hs)
    have after: "take ?L (bytes w') = bytes w @ take (?L - st) s"
      if "store x ctx w tag now skew = Some (r, w')" for tag now skew r w'
    proof -
      from that have "store_loop x tag now skew (- 1, 0) (- 1) s ?w1 = Some (r, w')"
        by (simp add: st)
      from store_keeps_seed_region [OF this] len region show ?thesis by simp
    qed
    from hs ov region st after show ?thesis by blast
  qed
  have only: "(\<forall>ctx w s tag now skew r w'.
             short_seed_read x ctx w st s \<longrightarrow> store x ctx w tag now skew = Some (r, w') \<longrightarrow>
             take ?L (bytes w') = s) \<longleftrightarrow> st = 0"
  proof
    assume all: "\<forall>ctx w s tag now skew r w'.
             short_seed_read x ctx w st s \<longrightarrow> store x ctx w tag now skew = Some (r, w') \<longrightarrow>
             take ?L (bytes w') = s"
    show "st = 0"
    proof (rule ccontr)
      assume "st \<noteq> 0"
      let ?ctx = "\<lparr>clockskew = 0, krb5_timeofday = Inr 0,
                    krb5_c_random_make_octets = Inr (replicate ?L (1 :: u8))\<rparr>"
      let ?w = "\<lparr>bytes = replicate st (0 :: u8), pos = 0, held = True, ticks = 0,
                  fate = (\<lambda>_. Completes)\<rparr>"
      have run: "short_seed_read x ?ctx ?w st (replicate ?L 1)"
        by (simp add: short_seed_read_def)
      from store_returns [of x ?ctx ?w "[]" 0 0] obtain r w' where
        res: "store x ?ctx ?w [] 0 0 = Some (r, w')"
        by auto
      from all run res have "take ?L (bytes w') = replicate ?L 1" by blast
      moreover from main [OF run] res
      have "take ?L (bytes w') = replicate st 0 @ take (?L - st) (replicate ?L 1)"
        by auto
      ultimately have "replicate st (0 :: u8) @ take (?L - st) (replicate ?L 1) = replicate ?L 1"
        by simp
      then have "(replicate st (0 :: u8) @ take (?L - st) (replicate ?L 1)) ! 0
                   = replicate ?L (1 :: u8) ! 0"
        by simp
      with \<open>st \<noteq> 0\<close> assms show False
        by (simp add: nth_append)
    qed
  next
    assume "st = 0"
    show "\<forall>ctx w s tag now skew r w'.
             short_seed_read x ctx w st s \<longrightarrow> store x ctx w tag now skew = Some (r, w') \<longrightarrow>
             take ?L (bytes w') = s"
    proof (intro allI impI)
      fix ctx w s tag now skew r w'
      assume run: "short_seed_read x ctx w st s"
        and res: "store x ctx w tag now skew = Some (r, w')"
      from main [OF run] res
      have "take ?L (bytes w') = bytes w @ take (?L - st) s" by auto
      with run \<open>st = 0\<close> show "take ?L (bytes w') = s"
        by (simp add: short_seed_read_def)
    qed
  qed
  from main only show ?thesis by blast
qed

theorem seed_written_after_short_read_witness:
  "1 < K5_HASH_SEED_LEN ref_env \<and>
   short_seed_read ref_env ref_context one_byte_file 1 (replicate 16 1) \<and>
   (\<exists>w1. hash_seed ref_env ref_context one_byte_file = (Inr (replicate 16 1), w1) \<and>
      bytes w1 = [7] @ replicate 16 1 \<and>
      take (K5_HASH_SEED_LEN ref_env) (bytes w1) = [7] @ replicate 15 1)"
proof -
  have a: "1 < K5_HASH_SEED_LEN ref_env"
    by (simp add: ref_env_simps)
  have b: "short_seed_read ref_env ref_context one_byte_file 1 (replicate 16 1)"
    by (simp add: short_seed_read_def one_byte_file_def ref_context_def ref_env_simps)
  note run = seed_written_after_short_read [OF a, THEN conjunct1, rule_format, OF b]
  then obtain w1 where
    "hash_seed ref_env ref_context one_byte_file = (Inr (replicate 16 1), w1)"
    "bytes w1 = overwrite (bytes one_byte_file) 1 (replicate 16 1)"
    "take (K5_HASH_SEED_LEN ref_env) (bytes w1)
       = bytes one_byte_file @ take (K5_HASH_SEED_LEN ref_env - 1) (replicate 16 1)"
    by (elim exE conjE)
  then have "hash_seed ref_env ref_context one_byte_file = (Inr (replicate 16 1), w1) \<and>
      bytes w1 = [7] @ replicate 16 1 \<and>
      take (K5_HASH_SEED_LEN ref_env) (bytes w1) = [7] @ replicate 15 1"
    by (simp add: overwrite_def one_byte_file_def ref_env_simps)
  with a b show ?thesis by blast
qed

lemma hash_seed_frame:
  assumes start: "pos w = 0"
    and seed: "bytes w = [] \<or> K5_HASH_SEED_LEN x \<le> length (bytes w)"
    and rnd: "\<forall>s. krb5_c_random_make_octets ctx = Inr s \<longrightarrow> length s = K5_HASH_SEED_LEN x"
    and run: "hash_seed x ctx w = (r, w1)"
  shows "drop (K5_HASH_SEED_LEN x) (bytes w1) = drop (K5_HASH_SEED_LEN x) (bytes w) \<and>
         (K5_HASH_SEED_LEN x \<le> length (bytes w) \<longrightarrow> bytes w1 = bytes w) \<and>
         fate w1 = fate w \<and> held w1 = held w"
proof (cases "K5_HASH_SEED_LEN x \<le> length (bytes w)")
  case True
  with run start show ?thesis
    by (auto simp: hash_seed_def sys_read_def tick_def split: outcome.splits)
next
  case False
  with seed have empty: "bytes w = []" by simp
  obtain r0 w0 where rd: "sys_read w (K5_HASH_SEED_LEN x) = (r0, w0)"
    by (cases "sys_read w (K5_HASH_SEED_LEN x)")
  note w0 = sys_read_facts [OF rd]
  show ?thesis
  proof (cases r0)
    case (Inl e)
    with run rd w0 show ?thesis by (simp add: hash_seed_def)
  next
    case (Inr got)
    with rd empty start have got: "got = []" and p0: "pos w0 = 0"
      by (auto simp: sys_read_def tick_def split: outcome.splits)
    show ?thesis
    proof (cases "krb5_c_random_make_octets ctx")
      case (Inl e)
      with run rd Inr got False w0 show ?thesis by (simp add: hash_seed_def)
    next
      case s: (Inr s)
      with rnd have len: "length s = K5_HASH_SEED_LEN x" by simp
      obtain r2 w2 where wr: "sys_write w0 s = (r2, w2)"
        by (cases "sys_write w0 s")
      note w2 = sys_write_facts [OF wr]
      have "drop (K5_HASH_SEED_LEN x) (bytes w2) = []"
      proof (cases r2)
        case (Inl e)
        with wr sys_write_err [of w0 s e w2] w0 empty show ?thesis by simp
      next
        case (Inr n)
        with wr sys_write_ok [of w0 s n w2] w0 empty p0 len show ?thesis
          by (simp add: overwrite_def)
      qed
      moreover from run rd Inr got False s wr have "w1 = w2"
        by (auto simp: hash_seed_def split: sum.splits if_splits)
      ultimately show ?thesis using w0 w2 empty False by simp
    qed
  qed
qed

text \<open>What a write at position \<open>p\<close> does to each byte of the file: bytes before
  \<open>p\<close> and after the buffer stay, a gap reads as zero, the buffer is in place.\<close>

lemma length_overwrite:
  "length (overwrite xs p buf) = max (length xs) (p + length buf)"
  by (simp add: overwrite_def)

lemma overwrite_nth_before:
  "i < p \<Longrightarrow> i < length xs \<Longrightarrow> overwrite xs p buf ! i = xs ! i"
  by (simp add: overwrite_def nth_append)

lemma overwrite_nth_gap:
  "i < p \<Longrightarrow> length xs \<le> i \<Longrightarrow> overwrite xs p buf ! i = 0"
proof -
  assume a: "i < p" "length xs \<le> i"
  then have "i - length xs < p - length xs" by linarith
  with a show ?thesis
    by (simp add: overwrite_def nth_append)
qed

lemma overwrite_nth_written:
  "i < length buf \<Longrightarrow> overwrite xs p buf ! (p + i) = buf ! i"
proof -
  assume a: "i < length buf"
  have "overwrite xs p buf = (take p xs @ replicate (p - length xs) 0) @ buf @ drop (p + length buf) xs"
    by (simp add: overwrite_def)
  moreover have "length (take p xs @ replicate (p - length xs) 0) = p"
    by simp
  ultimately have "overwrite xs p buf ! (p + i) = (buf @ drop (p + length buf) xs) ! i"
    by (metis nth_append_length_plus)
  with a show ?thesis by (simp add: nth_append)
qed

lemma overwrite_nth_after:
  "p + length buf \<le> i \<Longrightarrow> i < length xs \<Longrightarrow> overwrite xs p buf ! i = xs ! i"
proof -
  assume a: "p + length buf \<le> i" "i < length xs"
  have "overwrite xs p buf = (take p xs @ replicate (p - length xs) 0 @ buf) @ drop (p + length buf) xs"
    by (simp add: overwrite_def)
  moreover have "length (take p xs @ replicate (p - length xs) 0 @ buf) = p + length buf"
    using a by simp
  ultimately have "overwrite xs p buf ! (p + length buf + (i - (p + length buf)))
                     = drop (p + length buf) xs ! (i - (p + length buf))"
    by (metis nth_append_length_plus)
  with a show ?thesis by simp
qed

text \<open>
  C9, amended.  For a call that starts at offset 0 on a file that is empty or holds
  a full seed (a file with fewer bytes than a seed is left out), with a generator
  that fills the seed buffer and a 12-byte tag: the call returns, and apart from the
  seed region, which a call on an empty file writes, a successful \<^verbatim>\<open>store\<close> has
  written exactly one 16-byte record at one slot offset and nothing else; a failing
  \<^verbatim>\<open>store\<close> has written nothing, except when the write of the record itself was
  cut short by the system: then the call fails with \<^verbatim>\<open>EIO\<close> and the first bytes of
  that one record are in the file at its slot offset.
\<close>

theorem store_commits_one_record:
  assumes "pos w = 0"
    and "bytes w = [] \<or> K5_HASH_SEED_LEN x \<le> length (bytes w)"
    and "\<forall>s. krb5_c_random_make_octets ctx = Inr s \<longrightarrow> length s = K5_HASH_SEED_LEN x"
    and "length tag = TAG_LEN"
  shows "\<exists>r w' base.
           store x ctx w tag now skew = Some (r, w') \<and>
           drop (K5_HASH_SEED_LEN x) base = drop (K5_HASH_SEED_LEN x) (bytes w) \<and>
           (K5_HASH_SEED_LEN x \<le> length (bytes w) \<longrightarrow> base = bytes w) \<and>
           (case r of
              Inr _ \<Rightarrow>
                (\<exists>off. slot_offset x off \<and>
                   bytes w' = overwrite base (nat off) (marshal tag now))
            | Inl e \<Rightarrow>
                bytes w' = base \<or>
                (e = EIO \<and>
                 (\<exists>off k n. slot_offset x off \<and> k < RECORD_LEN \<and> fate w n = Short k \<and>
                    bytes w' = overwrite base (nat off) (take k (marshal tag now)))))"
proof -
  obtain r0 w1 where hs: "hash_seed x ctx w = (r0, w1)"
    by (cases "hash_seed x ctx w")
  note fr = hash_seed_frame [OF assms(1-3) hs]
  show ?thesis
  proof (cases r0)
    case (Inl e)
    with hs have "store x ctx w tag now skew = Some (Inl e, w1)"
      by (simp add: store_def)
    with fr show ?thesis by auto
  next
    case (Inr seed)
    with hs have st: "store x ctx w tag now skew
                        = store_loop x tag now skew (- 1, 0) (- 1) seed w1"
      by (simp add: store_def)
    from store_loop_returns [of x tag now skew 0 "- 1" seed w1] obtain r w' where
      run: "store_loop x tag now skew (- 1, 0) (- 1) seed w1 = Some (r, w')"
      by auto
    from store_loop_frame [OF run table_ok_start]
    have same: "fate w' = fate w1" and eff: "store_effect x tag now (bytes w1) (r, w')"
      by simp_all
    have "case r of
            Inr _ \<Rightarrow>
              (\<exists>off. slot_offset x off \<and>
                 bytes w' = overwrite (bytes w1) (nat off) (marshal tag now))
          | Inl e \<Rightarrow>
              bytes w' = bytes w1 \<or>
              (e = EIO \<and>
               (\<exists>off k n. slot_offset x off \<and> k < RECORD_LEN \<and> fate w n = Short k \<and>
                  bytes w' = overwrite (bytes w1) (nat off) (take k (marshal tag now))))"
      using eff assms(4) same fr
      by (cases r) (auto simp: store_effect_def)
    with st run fr show ?thesis by auto
  qed
qed

theorem store_commits_one_record_witness:
  "pos empty_file = 0 \<and>
   (bytes empty_file = [] \<or> K5_HASH_SEED_LEN ref_env \<le> length (bytes empty_file)) \<and>
   krb5_c_random_make_octets ref_context = Inr (replicate 16 1) \<and>
   length (replicate 16 1 :: u8 list) = K5_HASH_SEED_LEN ref_env \<and>
   length tag_a = TAG_LEN \<and>
   (\<exists>r w' base.
      store ref_env ref_context empty_file tag_a 1000 300 = Some (r, w') \<and>
      drop (K5_HASH_SEED_LEN ref_env) base = drop (K5_HASH_SEED_LEN ref_env) (bytes empty_file) \<and>
      (case r of
         Inr _ \<Rightarrow>
           (\<exists>off. slot_offset ref_env off \<and>
              bytes w' = overwrite base (nat off) (marshal tag_a 1000))
       | Inl e \<Rightarrow>
           bytes w' = base \<or>
           (e = EIO \<and>
            (\<exists>off k n. slot_offset ref_env off \<and> k < RECORD_LEN \<and>
               fate empty_file n = Short k \<and>
               bytes w' = overwrite base (nat off) (take k (marshal tag_a 1000))))))"
proof -
  have a: "pos empty_file = 0"
    and b: "bytes empty_file = [] \<or> K5_HASH_SEED_LEN ref_env \<le> length (bytes empty_file)"
    and c: "\<forall>s. krb5_c_random_make_octets ref_context = Inr s \<longrightarrow>
                length s = K5_HASH_SEED_LEN ref_env"
    and d: "length tag_a = TAG_LEN"
    by (auto simp: ref_fresh ref_context_def ref_env_simps)
  from store_commits_one_record [OF a b c d, of 1000 300] obtain r w' base where
    "store ref_env ref_context empty_file tag_a 1000 300 = Some (r, w')"
    "drop (K5_HASH_SEED_LEN ref_env) base = drop (K5_HASH_SEED_LEN ref_env) (bytes empty_file)"
    "case r of
         Inr _ \<Rightarrow>
           (\<exists>off. slot_offset ref_env off \<and>
              bytes w' = overwrite base (nat off) (marshal tag_a 1000))
       | Inl e \<Rightarrow>
           bytes w' = base \<or>
           (e = EIO \<and>
            (\<exists>off k n. slot_offset ref_env off \<and> k < RECORD_LEN \<and>
               fate empty_file n = Short k \<and>
               bytes w' = overwrite base (nat off) (take k (marshal tag_a 1000))))"
    by (elim exE conjE)
  with a b d ref_fresh(4,5) show ?thesis
    by (intro conjI exI [of _ r] exI [of _ w'] exI [of _ base])
qed

lemma short_write_bucket:
  "bucket_at (bytes short_write_file) 288 = [(tag_b, 500), (replicate 12 0, 0)]"
  using parse_marshal [of tag_b 500 "replicate 16 0"] length_marshal [of tag_b 500]
  by (simp add: short_write_file_def bucket_at_def Let_def tag_lengths TAG_LEN_def RECORD_LEN_def)
    (simp add: parse_def load_32_be_def TAG_LEN_def)

lemma short_write_after:
  "bucket_at (replicate 16 1 @ replicate 272 0 @ marshal tag_a 500 @ replicate 16 0) 288
     = [(tag_a, 500), (replicate 12 0, 0)]"
  using parse_marshal [of tag_a 500 "replicate 16 0"] length_marshal [of tag_a 500]
  by (simp add: bucket_at_def Let_def tag_lengths TAG_LEN_def RECORD_LEN_def)
    (simp add: parse_def load_32_be_def TAG_LEN_def)

lemma short_write_tests:
  "\<not> is_repeat tag_a [(tag_b, 500), (replicate 12 0, 0)]"
  "select_avail ref_env 1000 300 (- 1) 288 [(tag_b, 500), (replicate 12 0, 0)] = 288"
  "stop_here [(tag_b, 500), (replicate 12 0, 0)]"
    apply (simp add: is_repeat_def tag_a_def tag_b_def TAG_LEN_def eval_nat_numeral)
   apply (simp add: select_avail_def ref_env_simps ts_after_spec_def ts_incr_spec_def)
  apply (simp add: stop_here_def)
  done

lemma read_records_eq:
  assumes "fate w (ticks w) = Completes" and "fate w (Suc (ticks w)) = Completes"
    and "0 \<le> off"
  shows "read_records w off =
           (Inr (bucket_at (bytes w) (nat off)),
            w\<lparr>pos := nat off + length (take (RECORD_LEN * 2) (drop (nat off) (bytes w))),
              ticks := ticks w + 2\<rparr>)"
  using assms
  by (simp add: read_records_def lseek_set_def sys_read_def tick_def bucket_at_def Let_def)

lemma write_record_short:
  assumes "fate w (ticks w) = Completes" and "fate w (Suc (ticks w)) = Short k"
    and "0 \<le> off" and "k < RECORD_LEN" and "TAG_LEN \<le> length tag"
  shows "write_record w off tag ts =
           (Inl EIO, w\<lparr>bytes := overwrite (bytes w) (nat off) (take k (marshal tag ts)),
                       pos := nat off + k, ticks := ticks w + 2\<rparr>)"
  using assms length_marshal [of tag ts]
  by (simp add: write_record_def lseek_set_def sys_write_def tick_def Let_def min_def)

lemma short_write_run:
  "store ref_env ref_context short_write_file tag_a 1000 300
     = Some (Inl EIO,
         short_write_file\<lparr>bytes := replicate 16 1 @ replicate 272 0 @ marshal tag_a 500
                                      @ replicate 16 0,
                           pos := 300, ticks := 5\<rparr>)"
proof -
  have hs: "hash_seed ref_env ref_context short_write_file
              = (Inr (replicate 16 1), short_write_file\<lparr>pos := 16, ticks := 1\<rparr>)"
    by (simp add: hash_seed_def sys_read_def tick_def ref_env_simps short_write_file_def Let_def)
  let ?w1 = "short_write_file\<lparr>pos := 16, ticks := 1\<rparr>"
  have "read_records ?w1 288
          = (Inr (bucket_at (bytes ?w1) (nat 288)),
             ?w1\<lparr>pos := nat 288 + length (take (RECORD_LEN * 2) (drop (nat 288) (bytes ?w1))),
                  ticks := ticks ?w1 + 2\<rparr>)"
    by (rule read_records_eq) (simp_all add: short_write_file_def)
  also have "bucket_at (bytes ?w1) (nat 288) = [(tag_b, 500), (replicate 12 0, 0)]"
    by (simp add: short_write_bucket)
  also have "nat 288 + length (take (RECORD_LEN * 2) (drop (nat 288) (bytes ?w1))) = 320"
    by (simp add: short_write_file_def RECORD_LEN_def TAG_LEN_def marshal_samples tag_lengths
        length_store_32_be)
  finally have rd: "read_records ?w1 288
          = (Inr [(tag_b, 500), (replicate 12 0, 0)], short_write_file\<lparr>pos := 320, ticks := 3\<rparr>)"
    by simp
  let ?w2 = "short_write_file\<lparr>pos := 320, ticks := 3\<rparr>"
  have "write_record ?w2 288 tag_a 1000
          = (Inl EIO, ?w2\<lparr>bytes := overwrite (bytes ?w2) (nat 288) (take 12 (marshal tag_a 1000)),
                         pos := nat 288 + 12, ticks := ticks ?w2 + 2\<rparr>)"
    by (rule write_record_short)
      (simp_all add: short_write_file_def RECORD_LEN_def TAG_LEN_def tag_lengths)
  also have "overwrite (bytes ?w2) (nat 288) (take 12 (marshal tag_a 1000))
               = replicate 16 1 @ replicate 272 0 @ marshal tag_a 500 @ replicate 16 0"
    by (simp add: short_write_file_def overwrite_def marshal_samples tag_lengths
        length_store_32_be)
  finally have wr: "write_record ?w2 288 tag_a 1000
          = (Inl EIO,
             short_write_file\<lparr>bytes := replicate 16 1 @ replicate 272 0 @ marshal tag_a 500
                                      @ replicate 16 0,
                           pos := 300, ticks := 5\<rparr>)"
    by simp
  show ?thesis
    unfolding store_def hs
    by (subst store_loop.simps)
      (simp add: next_table_ref bucket_offset_samples rd [simplified]
        short_write_tests wr [simplified])
qed

lemma one_byte_run:
  "store ref_env ref_context one_byte_file tag_a 1000 300
     = Some (Inr (),
         one_byte_file\<lparr>bytes := [7] @ replicate 16 1 @ replicate 271 0 @ marshal tag_a 1000,
                        pos := 304, ticks := 6\<rparr>)"
  unfolding store_def
  apply (subst store_loop.simps)
  apply (simp add: Let_def hash_seed_def sys_read_def sys_write_def one_byte_file_def ref_env_simps
      ref_context_def
      tick_def overwrite_def next_table_ref bucket_offset_samples read_records_def lseek_set_def
      RECORD_LEN_def TAG_LEN_def is_repeat_def select_avail_def stop_here_def write_record_def
      marshal_samples tag_lengths length_store_32_be)
  done

text \<open>
  C9, as stated, fails in two ways.  On \<open>short_write_file\<close> the bucket of
  \<open>tag_a\<close> holds the expired record of \<open>tag_b\<close> (time 500) and a slot never
  written, and the system cuts the write of the record short after 12 bytes:
  \<^verbatim>\<open>store\<close> fails with \<^verbatim>\<open>EIO\<close>, yet the slot now reads as a record of
  \<open>tag_a\<close> with the old time 500.  On \<open>one_byte_file\<close> (a file of one byte)
  \<^verbatim>\<open>store\<close> succeeds and writes the record at offset 288, but the generated seed
  was written at offset 1, so the byte at offset 16, which belongs to the first slot
  of the first table, now is the last byte of the seed.
\<close>

theorem atomic_commit_counterexample:
  "store ref_env ref_context short_write_file tag_a 1000 300
     = Some (Inl EIO,
         short_write_file\<lparr>bytes := replicate 16 1 @ replicate 272 0 @ marshal tag_a 500
                                     @ replicate 16 0,
                          pos := 300, ticks := 5\<rparr>) \<and>
   bucket_at (bytes short_write_file) 288 = [(tag_b, 500), (replicate 12 0, 0)] \<and>
   bucket_at (replicate 16 1 @ replicate 272 0 @ marshal tag_a 500 @ replicate 16 0) 288
     = [(tag_a, 500), (replicate 12 0, 0)] \<and>
   store ref_env ref_context one_byte_file tag_a 1000 300
     = Some (Inr (),
         one_byte_file\<lparr>bytes := [7] @ replicate 16 1 @ replicate 271 0 @ marshal tag_a 1000,
                        pos := 304, ticks := 6\<rparr>) \<and>
   bytes one_byte_file = [7] \<and>
   ([7] @ replicate 16 1 @ replicate 271 0 @ marshal tag_a 1000) ! 16 = (1 :: u8) \<and>
   take 16 (drop 288 ([7] @ replicate 16 1 @ replicate 271 0 @ marshal tag_a 1000))
     = marshal tag_a 1000"
proof -
  have "([7] @ replicate 16 1 @ replicate 271 0 @ marshal tag_a 1000) ! 16 = (1 :: u8)"
    by (simp add: nth_append)
  moreover have "take 16 (drop 288 ([7] @ replicate 16 1 @ replicate 271 0 @ marshal tag_a 1000))
     = marshal tag_a 1000"
    by (simp add: marshal_samples tag_lengths length_store_32_be)
  moreover have "bytes one_byte_file = [7]"
    by (simp add: one_byte_file_def)
  ultimately show ?thesis
    using short_write_run one_byte_run short_write_bucket short_write_after
    by simp
qed

subsection \<open>Where the table sequence ends\<close>

text \<open>With a seed of 16 bytes the seventeenth table is the last one that fits.\<close>

lemma table_seq_boundary:
  "table_seq ref_env 16 = Inr (1073725440, 67108864)"
  "table_seq ref_env 17 = Inl EOVERFLOW"
  by (simp_all add: table_seq_closed fits_def ref_env_simps eval_nat_numeral
      MAX_SIZE_def RECORD_LEN_def TAG_LEN_def)

end
